theory Spec2Isabelle
  imports Main "HOL-Library.Word" "HOL-Library.Multiset"
begin

section \<open>The memory-optimize pass of the inference analysis\<close>

text \<open>
  This theory embeds \<^verbatim>\<open>paddle/fluid/inference/analysis/passes/memory_optimize_pass.cc\<close>:
  \<^verbatim>\<open>CollectLifeCycle\<close>, \<^verbatim>\<open>CollectVarMemorySize\<close>, \<^verbatim>\<open>MakeSimpleReusePlan\<close> and
  \<^verbatim>\<open>RunImpl\<close>.

  Conventions of the embedding.
  \<^item> A \<^verbatim>\<open>std::unordered_map<K, V>\<close> is an association list with pairwise distinct keys;
    the order of the list stands for the iteration order of the container, which the
    C++ standard leaves open. \<^verbatim>\<open>m[k] = v\<close> is \<open>AList.update\<close>-like (\<open>assign\<close> below),
    \<^verbatim>\<open>m.count(k)\<close> and \<^verbatim>\<open>m.at(k)\<close> read \<open>map_of\<close>.
  \<^item> \<^verbatim>\<open>size_t\<close> is \<open>64 word\<close>, a byte count stored in an \<^verbatim>\<open>int\<close> is \<open>32 word\<close> read
    with \<open>sint\<close>; narrowing conversions keep the low bits.
  \<^item> Step numbers (\<^verbatim>\<open>int max_lifecycle\<close>) and the cluster index are \<open>int\<close>: they count
    operator nodes and clusters and are only compared, never multiplied.
  \<^item> \<^verbatim>\<open>std::sort\<close> is a parameter \<open>srt\<close> of the plan; what the standard promises of it
    is \<open>std_sort_contract\<close>.
\<close>

subsection \<open>Association lists as unordered maps\<close>

fun assign :: "'k \<Rightarrow> 'v \<Rightarrow> ('k \<times> 'v) list \<Rightarrow> ('k \<times> 'v) list" where
  "assign k v [] = [(k, v)]"
| "assign k v (p # ps) = (if fst p = k then (k, v) # ps else p # assign k v ps)"

subsection \<open>MakeSimpleReusePlan\<close>

type_synonym size_t = "64 word"
type_synonym lifecycle_t = "int \<times> int"

record MemNode =
  name :: string
  size_m :: size_t
  cluster :: int
  lifetime :: lifecycle_t
  adj :: "string set"

text \<open>The first loop: one \<^verbatim>\<open>MemNode\<close> per entry of \<^verbatim>\<open>lifecycles\<close> that has a size.\<close>

fun mem_nodes_of ::
  "(string \<times> lifecycle_t) list \<Rightarrow> (string \<times> size_t) list \<Rightarrow> MemNode list" where
  "mem_nodes_of [] space_table = []"
| "mem_nodes_of (d # ds) space_table =
     (case map_of space_table (fst d) of
        None \<Rightarrow> mem_nodes_of ds space_table
      | Some sz \<Rightarrow>
          \<lparr>name = fst d, size_m = sz, cluster = - 1, lifetime = snd d, adj = {}\<rparr>
            # mem_nodes_of ds space_table)"

definition overlap :: "lifecycle_t \<Rightarrow> lifecycle_t \<Rightarrow> bool" where
  "overlap a b \<longleftrightarrow> snd b \<ge> fst a \<and> snd a \<ge> fst b"

text \<open>
  The adjacency loops. For a fixed \<open>i\<close> the inner loop over \<open>j > i\<close> inserts the name of
  node \<open>j\<close> into \<open>adj\<close> of node \<open>i\<close> (\<open>link_into\<close>, folded over the tail) and the name of
  node \<open>i\<close> into \<open>adj\<close> of node \<open>j\<close> (\<open>link_from\<close>, mapped over the tail); names and
  lifetimes do not change, so the two effects are independent.
\<close>

definition link_into :: "MemNode \<Rightarrow> MemNode \<Rightarrow> MemNode" where
  "link_into a y =
     (if overlap (lifetime a) (lifetime y) then a\<lparr>adj := insert (name y) (adj a)\<rparr> else a)"

definition link_from :: "MemNode \<Rightarrow> MemNode \<Rightarrow> MemNode" where
  "link_from x y =
     (if overlap (lifetime x) (lifetime y) then y\<lparr>adj := insert (name x) (adj y)\<rparr> else y)"

fun set_adjacent :: "MemNode list \<Rightarrow> MemNode list" where
  "set_adjacent [] = []"
| "set_adjacent (x # xs) = foldl link_into x xs # set_adjacent (map (link_from x) xs)"

text \<open>The comparator handed to \<^verbatim>\<open>std::sort\<close>, on unsigned 64-bit sizes.\<close>

definition sort_func :: "MemNode \<Rightarrow> MemNode \<Rightarrow> bool" where
  "sort_func a b \<longleftrightarrow> size_m a > size_m b"

text \<open>
  What \<^verbatim>\<open>std::sort(first, last, comp)\<close> guarantees: the result is a permutation of the
  input in which no later element is ordered before an earlier one by \<open>comp\<close>. The
  order of elements that \<open>comp\<close> does not separate is not determined.
\<close>

definition std_sort_contract :: "(MemNode list \<Rightarrow> MemNode list) \<Rightarrow> bool" where
  "std_sort_contract srt \<longleftrightarrow>
     (\<forall>xs. mset (srt xs) = mset xs \<and> sorted_wrt (\<lambda>a b. \<not> sort_func b a) (srt xs))"

text \<open>
  The inner loop of the greedy pass, for the cluster opened at \<open>rep\<close> with index \<open>idx\<close>
  and running adjacency \<open>cluster_adj\<close>, over the nodes after the representative. It
  returns the nodes with their \<open>cluster\<close> fields and the updated \<open>node2cluster\<close>.
\<close>

fun scan_cluster ::
  "string \<Rightarrow> int \<Rightarrow> string set \<Rightarrow> MemNode list \<Rightarrow> (string \<times> string) list
     \<Rightarrow> MemNode list \<times> (string \<times> string) list" where
  "scan_cluster rep idx cluster_adj [] node2cluster = ([], node2cluster)"
| "scan_cluster rep idx cluster_adj (y # ys) node2cluster =
     (if cluster y < 0 \<and> name y \<notin> cluster_adj then
        (case scan_cluster rep idx (cluster_adj \<union> adj y) ys
                (assign (name y) rep node2cluster) of
           (ys', n2c) \<Rightarrow> (y\<lparr>cluster := idx\<rparr> # ys', n2c))
      else
        (case scan_cluster rep idx cluster_adj ys node2cluster of
           (ys', n2c) \<Rightarrow> (y # ys', n2c)))"

text \<open>
  The outer loop. \<^verbatim>\<open>static_cast<int>(mem_nodes[i].size)\<close> keeps the low 32 bits of the
  size (\<open>ucast\<close>). \<^verbatim>\<open>cluster_index\<close> is the number of entries of \<^verbatim>\<open>cluster_size\<close> before
  the new one is written. The assignment \<^verbatim>\<open>mem_nodes[i].cluster = cluster_index\<close> to the
  representative is not kept: no later iteration reads node \<open>i\<close>.
\<close>

function greedy ::
  "MemNode list \<Rightarrow> (string \<times> string) list \<Rightarrow> (string \<times> 32 word) list
     \<Rightarrow> (string \<times> string) list \<times> (string \<times> 32 word) list" where
  "greedy [] node2cluster cluster_size = (node2cluster, cluster_size)"
| "greedy (x # xs) node2cluster cluster_size =
     (if cluster x \<ge> 0 then greedy xs node2cluster cluster_size
      else
        (let cluster_index = int (length cluster_size);
             cluster_size' = assign (name x) (ucast (size_m x)) cluster_size;
             node2cluster' = assign (name x) (name x) node2cluster;
             r = scan_cluster (name x) cluster_index (adj x) xs node2cluster'
         in greedy (fst r) (snd r) cluster_size'))"
  by pat_completeness auto
termination
proof (relation "measure (\<lambda>(xs, m, c). length xs)")
  show "wf (measure (\<lambda>(xs, m, c). length xs))"
    by simp
next
  fix x :: MemNode and xs node2cluster and cluster_size :: "(string \<times> 32 word) list"
    and cluster_index and cluster_size' :: "(string \<times> 32 word) list" and node2cluster' r
  assume "r = scan_cluster (name x) cluster_index (adj x) xs node2cluster'"
  moreover have "length (fst (scan_cluster rep idx cadj ys m)) = length ys"
    for rep idx cadj ys m
    by (induction ys arbitrary: cadj m) (simp_all add: split_beta)
  ultimately show "((fst r, snd r, cluster_size'), x # xs, node2cluster, cluster_size)
      \<in> measure (\<lambda>(xs, m, c). length xs)"
    by simp
qed simp

definition MakeSimpleReusePlan ::
  "(MemNode list \<Rightarrow> MemNode list) \<Rightarrow> (string \<times> lifecycle_t) list \<Rightarrow> (string \<times> size_t) list
     \<Rightarrow> (string \<times> string) list \<Rightarrow> (string \<times> 32 word) list
     \<Rightarrow> (string \<times> string) list \<times> (string \<times> 32 word) list" where
  "MakeSimpleReusePlan srt lifecycles space_table node2cluster cluster_size =
     greedy (srt (set_adjacent (mem_nodes_of lifecycles space_table)))
       node2cluster cluster_size"

text \<open>
  One admissible \<^verbatim>\<open>std::sort\<close>: insertion sort with the comparator, which keeps the
  input order of elements of equal size.
\<close>

fun insert_sorted :: "MemNode \<Rightarrow> MemNode list \<Rightarrow> MemNode list" where
  "insert_sorted a [] = [a]"
| "insert_sorted a (b # bs) =
     (if sort_func b a then b # insert_sorted a bs else a # b # bs)"

fun insertion_sort :: "MemNode list \<Rightarrow> MemNode list" where
  "insertion_sort [] = []"
| "insertion_sort (a # as) = insert_sorted a (insertion_sort as)"

subsection \<open>The graph\<close>

text \<open>
  \<^verbatim>\<open>ir::Graph\<close>, \<^verbatim>\<open>ir::Node\<close> and \<^verbatim>\<open>VarDesc\<close> are declared outside this file. A node
  pointer is an address, the graph's store \<open>deref\<close> gives the node at an address, and
  \<open>Nodes\<close> lists the addresses that \<^verbatim>\<open>graph->Nodes()\<close> iterates over. Of a node the
  pass reads \<^verbatim>\<open>Name()\<close>, \<^verbatim>\<open>IsOp()\<close>/\<^verbatim>\<open>IsVar()\<close> (\<open>node_type\<close>), \<^verbatim>\<open>Var()\<close> (a pointer
  that may be null), \<^verbatim>\<open>Op()->Type()\<close> (\<open>OpType\<close>) and the two incidence lists.
  A shape is a list of \<^verbatim>\<open>int64_t\<close> values, written as integers.
\<close>

datatype NodeType = kOperation | kVariable

datatype VarType_Type = VarType_Type_LOD_TENSOR | VarType_Type_other nat

record VarDesc =
  VarName :: string
  Persistable :: bool
  GetShape :: "int list"
  GetType :: VarType_Type
  GetDataType :: nat

record Node =
  Name :: string
  node_type :: NodeType
  Var :: "VarDesc option"
  OpType :: string
  inputs :: "nat list"
  outputs :: "nat list"

record Graph =
  deref :: "nat \<Rightarrow> Node"
  Nodes :: "nat list"

definition IsOp :: "Node \<Rightarrow> bool" where
  "IsOp n \<longleftrightarrow> node_type n = kOperation"

definition IsVar :: "Node \<Rightarrow> bool" where
  "IsVar n \<longleftrightarrow> node_type n = kVariable"

datatype error = InvalidArgument string

subsection \<open>CollectLifeCycle\<close>

definition INT_MAX :: int where
  "INT_MAX = 2147483647"

text \<open>\<^verbatim>\<open>lifecycles->emplace(var, value)\<close>: inserts only when the key is absent.\<close>

definition emplace :: "'k \<Rightarrow> 'v \<Rightarrow> ('k \<times> 'v) list \<Rightarrow> ('k \<times> 'v) list" where
  "emplace k v m = (case map_of m k of None \<Rightarrow> assign k v m | Some _ \<Rightarrow> m)"

text \<open>The feed branch: every output of the operator that has no entry yet gets \<open>(0, INT_MAX)\<close>.\<close>

fun feed_outputs ::
  "(nat \<Rightarrow> Node) \<Rightarrow> nat list \<Rightarrow> (string \<times> lifecycle_t) list \<Rightarrow> (string \<times> lifecycle_t) list" where
  "feed_outputs h [] lifecycles = lifecycles"
| "feed_outputs h (p # ps) lifecycles =
     feed_outputs h ps (emplace (Name (h p)) (0, INT_MAX) lifecycles)"

text \<open>
  The loop that sets \<^verbatim>\<open>is_break\<close>: some operator in \<^verbatim>\<open>node->inputs\<close> of the variable
  node is named \<^verbatim>\<open>fetch\<close>.
\<close>

definition is_break :: "(nat \<Rightarrow> Node) \<Rightarrow> Node \<Rightarrow> bool" where
  "is_break h node \<longleftrightarrow> list_ex (\<lambda>op_op. Name (h op_op) = ''fetch'') (inputs node)"

text \<open>The two assignments at the end of the loop body, for a variable that is not persistable.\<close>

definition record_use ::
  "int \<Rightarrow> string \<Rightarrow> (string \<times> lifecycle_t) list \<Rightarrow> (string \<times> lifecycle_t) list" where
  "record_use max_lifecycle var lifecycles =
     (case map_of lifecycles var of
        None \<Rightarrow> assign var (max_lifecycle, max_lifecycle) lifecycles
      | Some l \<Rightarrow> assign var (fst l, max max_lifecycle (snd l)) lifecycles)"

text \<open>
  The loop over \<^verbatim>\<open>req\<close> of a normal operator. \<^verbatim>\<open>PADDLE_ENFORCE_GE(i, 0, ...)\<close> throws at
  the first negative dimension. The running total \<^verbatim>\<open>persis_byte\<close> is a \<^verbatim>\<open>double\<close> that
  is only written to the log; it is not part of the result and is left out.
\<close>

fun visit_req ::
  "(nat \<Rightarrow> Node) \<Rightarrow> int \<Rightarrow> nat list \<Rightarrow> (string \<times> lifecycle_t) list
     \<Rightarrow> error + (string \<times> lifecycle_t) list" where
  "visit_req h max_lifecycle [] lifecycles = Inr lifecycles"
| "visit_req h max_lifecycle (p # ps) lifecycles =
     (case Var (h p) of
        None \<Rightarrow> visit_req h max_lifecycle ps lifecycles
      | Some d \<Rightarrow>
          if Persistable d then
            (if is_break h (h p) then visit_req h max_lifecycle ps lifecycles
             else if list_ex (\<lambda>i. i < 0) (GetShape d)
               then Inl (InvalidArgument ''The shape of node shouldn't be negative. '')
             else visit_req h max_lifecycle ps lifecycles)
          else visit_req h max_lifecycle ps (record_use max_lifecycle (Name (h p)) lifecycles))"

text \<open>
  The loop over the topological order. A node that is not an operator is skipped by
  \<^verbatim>\<open>continue\<close>, before \<^verbatim>\<open>++max_lifecycle\<close>.
\<close>

fun collect_loop ::
  "(nat \<Rightarrow> Node) \<Rightarrow> nat list \<Rightarrow> int \<Rightarrow> (string \<times> lifecycle_t) list
     \<Rightarrow> error + (string \<times> lifecycle_t) list" where
  "collect_loop h [] max_lifecycle lifecycles = Inr lifecycles"
| "collect_loop h (p # ps) max_lifecycle lifecycles =
     (if \<not> IsOp (h p) then collect_loop h ps max_lifecycle lifecycles
      else if Name (h p) = ''feed'' then
        collect_loop h ps (max_lifecycle + 1) (feed_outputs h (outputs (h p)) lifecycles)
      else
        (case visit_req h max_lifecycle (inputs (h p) @ outputs (h p)) lifecycles of
           Inl e \<Rightarrow> Inl e
         | Inr lifecycles' \<Rightarrow> collect_loop h ps (max_lifecycle + 1) lifecycles'))"

text \<open>
  \<open>order\<close> is the sequence that \<^verbatim>\<open>TopologyVariantSort(*graph, sort_kind)\<close> returns; that
  function is declared in \<^verbatim>\<open>graph_helper.h\<close>, outside this file.
\<close>

definition CollectLifeCycle ::
  "(nat \<Rightarrow> Node) \<Rightarrow> nat list \<Rightarrow> (string \<times> lifecycle_t) list
     \<Rightarrow> error + (string \<times> lifecycle_t) list" where
  "CollectLifeCycle h order lifecycles = collect_loop h order 0 lifecycles"

subsection \<open>CollectVarMemorySize\<close>

definition invalid_op :: "string list" where
  "invalid_op =
     [''while'', ''conditional_block'', ''tensorrt_engine'', ''conditional_block_infer'',
      ''merge_lod_tensor_infer'', ''merge_lod_tensor'', ''equal'', ''sequence_pool'',
      ''recurrent'', ''lod_reset'', ''fetch'', ''share_data'']"

text \<open>
  One of the two loops of \<^verbatim>\<open>valid_var\<close>: \<open>Inr False\<close> is \<^verbatim>\<open>return false\<close>, \<open>Inr True\<close>
  is the loop running to its end, \<open>Inl\<close> is the failed \<^verbatim>\<open>PADDLE_ENFORCE_EQ\<close>.
\<close>

fun check_ops :: "(nat \<Rightarrow> Node) \<Rightarrow> nat list \<Rightarrow> error + bool" where
  "check_ops h [] = Inr True"
| "check_ops h (p # ps) =
     (if \<not> IsOp (h p) then
        Inl (InvalidArgument
          ''Expected a node to be an operation, but the given node is not an operation.'')
      else if OpType (h p) \<in> set invalid_op then Inr False
      else check_ops h ps)"

definition valid_var :: "(nat \<Rightarrow> Node) \<Rightarrow> Node \<Rightarrow> error + bool" where
  "valid_var h node =
     (case check_ops h (inputs node) of
        Inl e \<Rightarrow> Inl e
      | Inr ok \<Rightarrow> if ok then check_ops h (outputs node) else Inr False)"

text \<open>
  The condition both loops over \<^verbatim>\<open>graph->Nodes()\<close> start with; it yields the variable
  descriptor when it holds.
\<close>

definition dense_var :: "Node \<Rightarrow> VarDesc option" where
  "dense_var node =
     (if IsVar node then
        (case Var node of
           None \<Rightarrow> None
         | Some d \<Rightarrow> if GetType d = VarType_Type_LOD_TENSOR then Some d else None)
      else None)"

fun collect_black_list ::
  "(nat \<Rightarrow> Node) \<Rightarrow> nat list \<Rightarrow> string set \<Rightarrow> error + string set" where
  "collect_black_list h [] black_list = Inr black_list"
| "collect_black_list h (p # ps) black_list =
     (case dense_var (h p) of
        None \<Rightarrow> collect_black_list h ps black_list
      | Some d \<Rightarrow>
          (case valid_var h (h p) of
             Inl e \<Rightarrow> Inl e
           | Inr ok \<Rightarrow>
               collect_black_list h ps
                 (if ok then black_list else insert (VarName d) black_list)))"

text \<open>
  The size of one tensor. \<^verbatim>\<open>std::accumulate\<close> is called with the initial value \<^verbatim>\<open>1\<close>
  of type \<^verbatim>\<open>int\<close>, so the accumulator is an \<^verbatim>\<open>int\<close>: each product with an \<^verbatim>\<open>int64_t\<close>
  dimension is narrowed to 32 bits (\<open>to_int\<close>). The product with \<^verbatim>\<open>SizeOfType\<close>, a
  \<^verbatim>\<open>size_t\<close>, is taken in \<^verbatim>\<open>size_t\<close>.
\<close>

definition to_int :: "int \<Rightarrow> int" where
  "to_int x = sint (word_of_int x :: 32 word)"

definition fake_batch_size :: int where
  "fake_batch_size = 1"

definition tensor_size :: "(nat \<Rightarrow> size_t) \<Rightarrow> VarDesc \<Rightarrow> size_t" where
  "tensor_size SizeOfType d =
     (let shape = map (\<lambda>v. if v < 0 then fake_batch_size else v) (GetShape d);
          size = foldl (\<lambda>acc v. to_int (acc * v)) 1 shape
      in word_of_int size * SizeOfType (GetDataType d))"

fun collect_sizes ::
  "(nat \<Rightarrow> size_t) \<Rightarrow> (nat \<Rightarrow> Node) \<Rightarrow> nat list \<Rightarrow> string set \<Rightarrow> (string \<times> size_t) list
     \<Rightarrow> (string \<times> size_t) list" where
  "collect_sizes SizeOfType h [] black_list space_table = space_table"
| "collect_sizes SizeOfType h (p # ps) black_list space_table =
     (case dense_var (h p) of
        None \<Rightarrow> collect_sizes SizeOfType h ps black_list space_table
      | Some d \<Rightarrow>
          if VarName d \<in> black_list then collect_sizes SizeOfType h ps black_list space_table
          else if Persistable d then collect_sizes SizeOfType h ps black_list space_table
          else collect_sizes SizeOfType h ps black_list
                 (assign (VarName d) (tensor_size SizeOfType d) space_table))"

text \<open>
  \<open>SizeOfType\<close> is \<^verbatim>\<open>paddle::framework::SizeOfType\<close>, declared outside this file: the
  byte width of an element type.
\<close>

definition CollectVarMemorySize ::
  "(nat \<Rightarrow> size_t) \<Rightarrow> Graph \<Rightarrow> (string \<times> size_t) list \<Rightarrow> error + (string \<times> size_t) list" where
  "CollectVarMemorySize SizeOfType graph space_table =
     (case collect_black_list (deref graph) (Nodes graph) {} of
        Inl e \<Rightarrow> Inl e
      | Inr black_list \<Rightarrow>
          Inr (collect_sizes SizeOfType (deref graph) (Nodes graph) black_list space_table))"

subsection \<open>RunImpl\<close>

record Argument =
  enable_memory_optim :: bool
  main_graph_ptr :: Graph
  root_predictor_id :: int

text \<open>
  Modelled from the spec: \<^verbatim>\<open>PassResultInfoForRuntime\<close> (declared in
  \<^verbatim>\<open>pass_result_info.h\<close>, outside this file) is the process-wide results registry, keyed
  by the session id and the pass name; a second write under the same key overwrites the
  first. A stored value is one of the two maps this pass computes.
\<close>

datatype pass_result =
  Node2Cluster "(string \<times> string) list"
| ClusterSize "(string \<times> 32 word) list"

type_synonym registry = "int \<times> string \<Rightarrow> pass_result option"

definition Set_result :: "int \<Rightarrow> string \<Rightarrow> pass_result \<Rightarrow> registry \<Rightarrow> registry" where
  "Set_result predictor_id pass_name infos reg = reg((predictor_id, pass_name) \<mapsto> infos)"

definition repr :: string where
  "repr = ''memory_optimize_pass''"

text \<open>
  \<open>tvs\<close> is \<^verbatim>\<open>TopologyVariantSort\<close>. The four local maps start empty. Only
  \<^verbatim>\<open>node2cluster\<close> is handed to \<^verbatim>\<open>Set\<close>; \<^verbatim>\<open>cluster_size\<close> goes out of scope.
\<close>

definition RunImpl ::
  "(Graph \<Rightarrow> int \<Rightarrow> nat list) \<Rightarrow> (nat \<Rightarrow> size_t) \<Rightarrow> (MemNode list \<Rightarrow> MemNode list)
     \<Rightarrow> Argument \<Rightarrow> registry \<Rightarrow> error + registry" where
  "RunImpl tvs SizeOfType srt argument reg =
     (if \<not> enable_memory_optim argument then Inr reg
      else
        (let graph = main_graph_ptr argument;
             sort_kind = 0
         in case CollectLifeCycle (deref graph) (tvs graph sort_kind) [] of
              Inl e \<Rightarrow> Inl e
            | Inr lifecycles \<Rightarrow>
                (case CollectVarMemorySize SizeOfType graph [] of
                   Inl e \<Rightarrow> Inl e
                 | Inr space_table \<Rightarrow>
                     (case MakeSimpleReusePlan srt lifecycles space_table [] [] of
                        (node2cluster, cluster_size) \<Rightarrow>
                          Inr (Set_result (root_predictor_id argument)
                                 ''memory_optimize_pass'' (Node2Cluster node2cluster) reg)))))"

subsection \<open>Notions used in the proofs\<close>

text \<open>The nodes that \<open>scan_cluster\<close> admits into the open cluster.\<close>

fun admitted :: "string set \<Rightarrow> MemNode list \<Rightarrow> MemNode list" where
  "admitted cadj [] = []"
| "admitted cadj (y # ys) =
     (if cluster y < 0 \<and> name y \<notin> cadj then y # admitted (cadj \<union> adj y) ys
      else admitted cadj ys)"

text \<open>The nodes without a cluster.\<close>

definition free :: "MemNode list \<Rightarrow> MemNode list" where
  "free xs = filter (\<lambda>y. cluster y < 0) xs"

text \<open>The fields of a node that the greedy pass never writes.\<close>

definition static :: "MemNode \<Rightarrow> string \<times> size_t \<times> lifecycle_t \<times> string set" where
  "static y = (name y, size_m y, lifetime y, adj y)"

text \<open>Adjacency is symmetric.\<close>

definition sym_adj :: "MemNode list \<Rightarrow> bool" where
  "sym_adj xs \<longleftrightarrow> (\<forall>a \<in> set xs. \<forall>b \<in> set xs. name b \<in> adj a \<longleftrightarrow> name a \<in> adj b)"

text \<open>Sizes do not increase along the list.\<close>

definition size_sorted :: "MemNode list \<Rightarrow> bool" where
  "size_sorted xs \<longleftrightarrow> sorted_wrt (\<lambda>a b. size_m b \<le> size_m a) xs"

text \<open>The names of the other nodes whose lifetime overlaps that of \<open>x\<close>, and the node with them added.\<close>

definition nbrs :: "MemNode list \<Rightarrow> MemNode \<Rightarrow> string set" where
  "nbrs xs x = name ` {y \<in> set xs. name y \<noteq> name x \<and> overlap (lifetime x) (lifetime y)}"

definition full_adj :: "MemNode list \<Rightarrow> MemNode \<Rightarrow> MemNode" where
  "full_adj xs x = x\<lparr>adj := adj x \<union> nbrs xs x\<rparr>"

text \<open>The node built from an entry of \<^verbatim>\<open>lifecycles\<close> that has a size.\<close>

definition mk_node :: "(string \<times> size_t) list \<Rightarrow> string \<times> lifecycle_t \<Rightarrow> MemNode" where
  "mk_node st d =
     \<lparr>name = fst d, size_m = the (map_of st (fst d)), cluster = - 1, lifetime = snd d, adj = {}\<rparr>"

text \<open>The nodes the greedy pass runs on.\<close>

definition plan_nodes ::
  "(MemNode list \<Rightarrow> MemNode list) \<Rightarrow> (string \<times> lifecycle_t) list \<Rightarrow> (string \<times> size_t) list
     \<Rightarrow> MemNode list" where
  "plan_nodes srt lcs st = srt (set_adjacent (mem_nodes_of lcs st))"

text \<open>The worked scenario of the specification, used as a concrete input.\<close>

definition scenario_lifecycles :: "(string \<times> lifecycle_t) list" where
  "scenario_lifecycles = [(''A'', (0, 2)), (''B'', (3, 5)), (''C'', (1, 4))]"

definition scenario_space_table :: "(string \<times> size_t) list" where
  "scenario_space_table = [(''A'', 100), (''B'', 50), (''C'', 80)]"

text \<open>A second admissible \<^verbatim>\<open>std::sort\<close>, and a second iteration order of the scenario.\<close>

definition reverse_sort :: "MemNode list \<Rightarrow> MemNode list" where
  "reverse_sort xs = insertion_sort (rev xs)"

definition scenario_lifecycles' :: "(string \<times> lifecycle_t) list" where
  "scenario_lifecycles' = [(''C'', (1, 4)), (''A'', (0, 2)), (''B'', (3, 5))]"

text \<open>What makes \<^verbatim>\<open>PADDLE_ENFORCE_GE\<close> fail at an element of \<^verbatim>\<open>req\<close>, and the error it throws.\<close>

definition bad_shape :: "(nat \<Rightarrow> Node) \<Rightarrow> nat \<Rightarrow> bool" where
  "bad_shape h p \<longleftrightarrow>
     (case Var (h p) of
        None \<Rightarrow> False
      | Some d \<Rightarrow> Persistable d \<and> \<not> is_break h (h p) \<and> list_ex (\<lambda>i. i < 0) (GetShape d))"

definition shape_error :: error where
  "shape_error = InvalidArgument ''The shape of node shouldn't be negative. ''"

text \<open>Concrete graphs. A store maps every address it does not mention to \<open>no_node\<close>.\<close>

definition no_node :: Node where
  "no_node = \<lparr>Name = [], node_type = kVariable, Var = None, OpType = [],
               inputs = [], outputs = []\<rparr>"

definition op_node :: "string \<Rightarrow> nat list \<Rightarrow> nat list \<Rightarrow> Node" where
  "op_node t ins outs = \<lparr>Name = t, node_type = kOperation, Var = None, OpType = t,
               inputs = ins, outputs = outs\<rparr>"

definition var_node :: "string \<Rightarrow> bool \<Rightarrow> int list \<Rightarrow> nat list \<Rightarrow> nat list \<Rightarrow> Node" where
  "var_node n pers shape ins outs =
     \<lparr>Name = n, node_type = kVariable,
      Var = Some \<lparr>VarName = n, Persistable = pers, GetShape = shape,
                  GetType = VarType_Type_LOD_TENSOR, GetDataType = 5\<rparr>,
      OpType = [], inputs = ins, outputs = outs\<rparr>"

text \<open>A persistable variable with a dynamic dimension whose only consumer is a \<^verbatim>\<open>fetch\<close> operator.\<close>

definition fetched_param :: "nat \<Rightarrow> Node" where
  "fetched_param = (\<lambda>_. no_node)
     (0 := op_node ''fetch'' [1] [],
      1 := var_node ''p'' True [- 1] [] [0])"

text \<open>Every interval ends at a step that is not negative and starts no later than \<open>INT_MAX\<close>.\<close>

definition intervals_ok :: "(string \<times> lifecycle_t) list \<Rightarrow> bool" where
  "intervals_ok lc \<longleftrightarrow> (\<forall>e \<in> set lc. 0 \<le> snd (snd e) \<and> fst (snd e) \<le> INT_MAX)"

text \<open>A chain \<^verbatim>\<open>feed, relu, scale, sigmoid, tanh, fetch\<close> with one parameter \<open>w\<close>, its topological order, and what the two collectors return on it (with four bytes per element).\<close>

definition small_heap :: "nat \<Rightarrow> Node" where
  "small_heap = (\<lambda>_. no_node)
     (0 := op_node ''feed'' [] [1],
      1 := var_node ''x'' False [- 1, 4] [0] [2],
      2 := op_node ''relu'' [1] [3],
      3 := var_node ''y'' False [- 1, 8] [2] [4],
      4 := op_node ''scale'' [3, 10] [5],
      5 := var_node ''z'' False [- 1, 6] [4] [6],
      6 := op_node ''sigmoid'' [5] [7],
      7 := var_node ''u'' False [- 1, 2] [6] [8],
      8 := op_node ''tanh'' [7] [9],
      9 := var_node ''t'' False [- 1, 2] [8] [11],
      10 := var_node ''w'' True [4] [] [4],
      11 := op_node ''fetch'' [9] [12],
      12 := var_node ''out'' False [- 1, 2] [11] [])"

definition small_graph :: Graph where
  "small_graph = \<lparr>deref = small_heap, Nodes = [0, 1, 2, 3, 4, 5, 6, 7, 8, 9, 10, 11, 12]\<rparr>"

definition small_order :: "nat list" where
  "small_order = [0, 2, 4, 6, 8, 11]"

definition small_lifecycles :: "(string \<times> lifecycle_t) list" where
  "small_lifecycles =
     [(''x'', (0, INT_MAX)), (''y'', (1, 2)), (''z'', (2, 3)), (''u'', (3, 4)),
      (''t'', (4, 5)), (''out'', (5, 5))]"

definition small_space_table :: "(string \<times> size_t) list" where
  "small_space_table = [(''x'', 16), (''y'', 32), (''z'', 24), (''u'', 8)]"

text \<open>One dense tensor of \<open>2^32\<close> elements.\<close>

definition big_tensor :: Graph where
  "big_tensor = \<lparr>deref = (\<lambda>_. no_node)(0 := var_node ''big'' False [65536, 65536] [] []),
                 Nodes = [0]\<rparr>"

text \<open>The argument of a run on the small graph, for predictor 7.\<close>

definition small_argument :: Argument where
  "small_argument =
     \<lparr>enable_memory_optim = True, main_graph_ptr = small_graph, root_predictor_id = 7\<rparr>"

section \<open>Properties of the greedy pass\<close>

subsection \<open>Association lists\<close>

lemma map_of_assign: "map_of (assign k v m) = (map_of m)(k \<mapsto> v)"
  by (induction m) (auto simp: fun_upd_twist)



lemma admitted_subset: "set (admitted cadj ys) \<subseteq> set (free ys)"
  by (induction ys arbitrary: cadj) (auto simp: free_def)

lemma admitted_not_cadj: "y \<in> set (admitted cadj ys) \<Longrightarrow> name y \<notin> cadj"
  by (induction ys arbitrary: cadj) (auto split: if_splits)

lemma admitted_pairwise:
  "sorted_wrt (\<lambda>a b. name b \<notin> adj a) (admitted cadj ys)"
proof (induction ys arbitrary: cadj)
  case Nil
  show ?case by simp
next
  case (Cons y ys)
  have "name b \<notin> adj y" if "b \<in> set (admitted (cadj \<union> adj y) ys)" for b
    using admitted_not_cadj [OF that] by simp
  with Cons show ?case by simp
qed

lemma scan_static:
  "map static (fst (scan_cluster rep idx cadj ys m)) = map static ys"
  by (induction ys arbitrary: cadj m) (simp_all add: split_beta static_def)

lemma scan_map_of:
  "map_of (snd (scan_cluster rep idx cadj ys m)) k =
     (if k \<in> name ` set (admitted cadj ys) then Some rep else map_of m k)"
  by (induction ys arbitrary: cadj m) (auto simp: split_beta map_of_assign)

lemma scan_free_subset:
  "0 \<le> idx \<Longrightarrow> set (free (fst (scan_cluster rep idx cadj ys m))) \<subseteq> set (free ys)"
  by (induction ys arbitrary: cadj m) (auto simp: split_beta free_def)

lemma scan_free_names:
  "0 \<le> idx \<Longrightarrow> distinct (map name ys) \<Longrightarrow>
   name ` set (free (fst (scan_cluster rep idx cadj ys m)))
     = name ` set (free ys) - name ` set (admitted cadj ys)"
proof (induction ys arbitrary: cadj m)
  case Nil
  show ?case by (simp add: free_def)
next
  case (Cons y ys)
  have sub: "set (admitted c ys) \<subseteq> set ys" for c
    using admitted_subset [of c ys] by (auto simp: free_def)
  show ?case
  proof (cases "cluster y < 0 \<and> name y \<notin> cadj")
    case True
    have "name y \<notin> name ` set (free ys)"
      using Cons.prems(2) by (auto simp: free_def)
    then show ?thesis
      using True Cons.IH [of "cadj \<union> adj y" "assign (name y) rep m"] Cons.prems
      by (auto simp: split_beta free_def)
  next
    case False
    have "name y \<notin> name ` set (admitted cadj ys)"
      using Cons.prems(2) sub [of cadj] by auto
    then show ?thesis
      using False Cons.IH [of cadj m] Cons.prems
      by (auto simp: split_beta free_def)
  qed
qed

lemma scan_free_keep:
  "y \<in> set (free ys) \<Longrightarrow>
   y \<in> set (admitted cadj ys) \<or> y \<in> set (free (fst (scan_cluster rep idx cadj ys m)))"
proof (induction ys arbitrary: cadj m)
  case Nil
  then show ?case by (simp add: free_def)
next
  case (Cons a ys)
  show ?case
  proof (cases "y \<in> set (free ys)")
    case True
    show ?thesis
    proof (cases "cluster a < 0 \<and> name a \<notin> cadj")
      case adm: True
      from Cons.IH [OF True, of "cadj \<union> adj a" "assign (name a) rep m"] adm
      show ?thesis by (auto simp: split_beta free_def)
    next
      case False
      from Cons.IH [OF True, of cadj m] False
      show ?thesis by (auto simp: split_beta free_def)
    qed
  next
    case False
    with Cons.prems have "y = a" "cluster a < 0"
      by (auto simp: free_def split: if_splits)
    then show ?thesis
      by (auto simp: split_beta free_def)
  qed
qed


lemma static_name: "map name xs = map fst (map static xs)"
  by (simp add: static_def)

lemma sym_adj_static:
  "sym_adj xs \<longleftrightarrow>
     (\<forall>s \<in> set (map static xs). \<forall>t \<in> set (map static xs).
        fst t \<in> snd (snd (snd s)) \<longleftrightarrow> fst s \<in> snd (snd (snd t)))"
  by (simp add: sym_adj_def static_def)

lemma size_sorted_static:
  "size_sorted xs \<longleftrightarrow> sorted_wrt (\<lambda>a b. b \<le> a) (map (\<lambda>t. fst (snd t)) (map static xs))"
  by (simp add: size_sorted_def sorted_wrt_map static_def)

lemma scan_distinct:
  "distinct (map name (fst (scan_cluster rep idx cadj ys m))) = distinct (map name ys)"
  by (simp add: static_name scan_static)

lemma scan_sym_adj: "sym_adj (fst (scan_cluster rep idx cadj ys m)) = sym_adj ys"
  by (simp only: sym_adj_static scan_static)

lemma scan_size_sorted: "size_sorted (fst (scan_cluster rep idx cadj ys m)) = size_sorted ys"
  by (simp only: size_sorted_static scan_static)

lemma greedy_step:
  "\<not> 0 \<le> cluster x \<Longrightarrow>
   greedy (x # xs) m c =
     greedy (fst (scan_cluster (name x) (int (length c)) (adj x) xs (assign (name x) (name x) m)))
       (snd (scan_cluster (name x) (int (length c)) (adj x) xs (assign (name x) (name x) m)))
       (assign (name x) (ucast (size_m x)) c)"
  by (simp add: Let_def)

lemma greedy_frame:
  "k \<notin> name ` set (free xs) \<Longrightarrow>
   map_of (fst (greedy xs m c)) k = map_of m k \<and> map_of (snd (greedy xs m c)) k = map_of c k"
proof (induction xs m c rule: greedy.induct)
  case (1 m c)
  show ?case by simp
next
  case (2 x xs m c)
  show ?case
  proof (cases "0 \<le> cluster x")
    case True
    with 2 show ?thesis by (simp add: free_def)
  next
    case False
    let ?c1 = "assign (name x) (ucast (size_m x) :: 32 word) c"
    let ?m1 = "assign (name x) (name x) m"
    let ?r = "scan_cluster (name x) (int (length c)) (adj x) xs ?m1"
    have kx: "k \<noteq> name x" and kxs: "k \<notin> name ` set (free xs)"
      using "2.prems" False by (auto simp: free_def)
    have "k \<notin> name ` set (free (fst ?r))"
      using kxs scan_free_subset [of "int (length c)" "name x" "adj x" xs ?m1]
      by auto
    from "2.IH"(2) [OF False refl refl refl refl this]
    have "map_of (fst (greedy (fst ?r) (snd ?r) ?c1)) k = map_of (snd ?r) k"
      and "map_of (snd (greedy (fst ?r) (snd ?r) ?c1)) k = map_of ?c1 k"
      by simp_all
    moreover have "map_of (snd ?r) k = map_of m k"
      using kx kxs admitted_subset [of "adj x" xs]
      by (auto simp: scan_map_of map_of_assign)
    moreover have "map_of ?c1 k = map_of c k"
      using kx by (simp add: map_of_assign)
    ultimately show ?thesis
      by (simp only: greedy_step [OF False])
  qed
qed


lemma free_Cons: "free (x # xs) = (if cluster x < 0 then x # free xs else free xs)"
  by (simp add: free_def)

lemma free_subset: "set (free xs) \<subseteq> set xs"
  by (auto simp: free_def)

lemma greedy_root:
  assumes d: "distinct (map name (x # xs))" and f: "\<not> 0 \<le> cluster x"
  shows "map_of (fst (greedy (x # xs) m c)) (name x) = Some (name x)"
    and "map_of (snd (greedy (x # xs) m c)) (name x) = Some (ucast (size_m x))"
proof -
  let ?c1 = "assign (name x) (ucast (size_m x) :: 32 word) c"
  let ?m1 = "assign (name x) (name x) m"
  let ?r = "scan_cluster (name x) (int (length c)) (adj x) xs ?m1"
  have nx: "name x \<notin> name ` set xs"
    using d by auto
  have "name x \<notin> name ` set (free (fst ?r))"
    using nx scan_free_subset [of "int (length c)" "name x" "adj x" xs ?m1] free_subset [of xs]
    by auto
  from greedy_frame [OF this, of "snd ?r" ?c1]
  have "map_of (fst (greedy (fst ?r) (snd ?r) ?c1)) (name x) = map_of (snd ?r) (name x)"
    and "map_of (snd (greedy (fst ?r) (snd ?r) ?c1)) (name x) = map_of ?c1 (name x)"
    by simp_all
  moreover have "map_of (snd ?r) (name x) = Some (name x)"
    using nx admitted_subset [of "adj x" xs] free_subset [of xs]
    by (auto simp: scan_map_of map_of_assign)
  moreover have "map_of ?c1 (name x) = Some (ucast (size_m x))"
    by (simp add: map_of_assign)
  ultimately show "map_of (fst (greedy (x # xs) m c)) (name x) = Some (name x)"
    and "map_of (snd (greedy (x # xs) m c)) (name x) = Some (ucast (size_m x))"
    by (simp_all only: greedy_step [OF f])
qed

lemma greedy_member:
  assumes d: "distinct (map name (x # xs))" and f: "\<not> 0 \<le> cluster x"
    and a: "y \<in> set (admitted (adj x) xs)"
  shows "map_of (fst (greedy (x # xs) m c)) (name y) = Some (name x)"
proof -
  let ?c1 = "assign (name x) (ucast (size_m x) :: 32 word) c"
  let ?m1 = "assign (name x) (name x) m"
  let ?r = "scan_cluster (name x) (int (length c)) (adj x) xs ?m1"
  have "distinct (map name xs)"
    using d by simp
  then have "name y \<notin> name ` set (free (fst ?r))"
    using a scan_free_names [of "int (length c)" xs "name x" "adj x" ?m1] by auto
  from greedy_frame [OF this, of "snd ?r" ?c1]
  have "map_of (fst (greedy (fst ?r) (snd ?r) ?c1)) (name y) = map_of (snd ?r) (name y)"
    by simp
  moreover have "map_of (snd ?r) (name y) = Some (name x)"
    using a by (auto simp: scan_map_of)
  ultimately show ?thesis
    by (simp only: greedy_step [OF f])
qed

lemma greedy_rep:
  "distinct (map name xs) \<Longrightarrow> size_sorted xs \<Longrightarrow> y \<in> set (free xs) \<Longrightarrow>
   \<exists>r \<in> set (free xs).
     map_of (fst (greedy xs m c)) (name y) = Some (name r) \<and>
     map_of (fst (greedy xs m c)) (name r) = Some (name r) \<and>
     map_of (snd (greedy xs m c)) (name r) = Some (ucast (size_m r)) \<and>
     size_m y \<le> size_m r"
proof (induction xs m c rule: greedy.induct)
  case (1 m c)
  then show ?case by (simp add: free_def)
next
  case (2 x xs m c)
  have dxs: "distinct (map name xs)" and sxs: "size_sorted xs"
    using "2.prems" by (simp_all add: size_sorted_def)
  show ?case
  proof (cases "0 \<le> cluster x")
    case True
    then have "y \<in> set (free xs)"
      using "2.prems"(3) by (simp add: free_Cons)
    from "2.IH"(1) [OF True dxs sxs this] True show ?thesis
      by (simp add: free_Cons)
  next
    case False
    let ?c1 = "assign (name x) (ucast (size_m x) :: 32 word) c"
    let ?m1 = "assign (name x) (name x) m"
    let ?r = "scan_cluster (name x) (int (length c)) (adj x) xs ?m1"
    note root = greedy_root [OF "2.prems"(1) False, of m c]
    have xfree: "x \<in> set (free (x # xs))"
      using False by (simp add: free_Cons)
    consider (root) "y = x" | (member) "y \<in> set (admitted (adj x) xs)"
      | (later) "y \<in> set (free (fst ?r))"
      using "2.prems"(3) False scan_free_keep [of y xs "adj x" "name x" "int (length c)" ?m1]
      by (auto simp: free_Cons)
    then show ?thesis
    proof cases
      case root
      with xfree show ?thesis
        using greedy_root [OF "2.prems"(1) False, of m c] by blast
    next
      case member
      have "y \<in> set xs"
        using member admitted_subset [of "adj x" xs] free_subset [of xs] by auto
      then have "size_m y \<le> size_m x"
        using "2.prems"(2) by (auto simp: size_sorted_def)
      with xfree greedy_member [OF "2.prems"(1) False member, of m c] root
      show ?thesis by blast
    next
      case later
      have d': "distinct (map name (fst ?r))" and s': "size_sorted (fst ?r)"
        using dxs sxs by (simp_all only: scan_distinct scan_size_sorted)
      from "2.IH"(2) [OF False refl refl refl refl d' s' later]
      obtain r where r: "r \<in> set (free (fst ?r))"
        and "map_of (fst (greedy (fst ?r) (snd ?r) ?c1)) (name y) = Some (name r)"
            "map_of (fst (greedy (fst ?r) (snd ?r) ?c1)) (name r) = Some (name r)"
            "map_of (snd (greedy (fst ?r) (snd ?r) ?c1)) (name r) = Some (ucast (size_m r))"
            "size_m y \<le> size_m r"
        by blast
      moreover have "r \<in> set (free (x # xs))"
        using r scan_free_subset [of "int (length c)" "name x" "adj x" xs ?m1]
        by (auto simp: free_Cons)
      ultimately show ?thesis
        by (simp only: greedy_step [OF False]) blast
    qed
  qed
qed


lemma greedy_later:
  assumes d: "distinct (map name (x # xs))" and s: "size_sorted (x # xs)"
    and f: "\<not> 0 \<le> cluster x"
    and z: "z \<in> set (free (fst (scan_cluster (name x) (int (length c)) (adj x) xs
              (assign (name x) (name x) m))))"
  shows "map_of (fst (greedy (x # xs) m c)) (name z) \<noteq> Some (name x)"
proof -
  let ?c1 = "assign (name x) (ucast (size_m x) :: 32 word) c"
  let ?m1 = "assign (name x) (name x) m"
  let ?r = "scan_cluster (name x) (int (length c)) (adj x) xs ?m1"
  have "distinct (map name xs)" and "size_sorted xs"
    using d s by (simp_all add: size_sorted_def)
  then have d': "distinct (map name (fst ?r))" and s': "size_sorted (fst ?r)"
    by (simp_all only: scan_distinct scan_size_sorted)
  from greedy_rep [OF d' s' z, of "snd ?r" ?c1]
  obtain r where r: "r \<in> set (free (fst ?r))"
    and eq: "map_of (fst (greedy (fst ?r) (snd ?r) ?c1)) (name z) = Some (name r)"
    by blast
  have "name r \<in> name ` set xs"
    using r scan_free_subset [of "int (length c)" "name x" "adj x" xs ?m1] free_subset [of xs]
    by auto
  then have "name r \<noteq> name x"
    using d by auto
  with eq show ?thesis
    by (simp only: greedy_step [OF f]) simp
qed

lemma sorted_wrt_either:
  "sorted_wrt P l \<Longrightarrow> a \<in> set l \<Longrightarrow> b \<in> set l \<Longrightarrow> a \<noteq> b \<Longrightarrow> P a b \<or> P b a"
  by (induction l) auto

lemma greedy_indep:
  "distinct (map name xs) \<Longrightarrow> size_sorted xs \<Longrightarrow> sym_adj xs \<Longrightarrow>
   y \<in> set (free xs) \<Longrightarrow> z \<in> set (free xs) \<Longrightarrow> y \<noteq> z \<Longrightarrow>
   map_of (fst (greedy xs m c)) (name y) = map_of (fst (greedy xs m c)) (name z) \<Longrightarrow>
   name z \<notin> adj y"
proof (induction xs m c rule: greedy.induct)
  case (1 m c)
  then show ?case by (simp add: free_def)
next
  case (2 x xs m c)
  have dxs: "distinct (map name xs)" and sxs: "size_sorted xs" and axs: "sym_adj xs"
    using "2.prems"(1-3) by (simp_all add: size_sorted_def sym_adj_def)
  show ?case
  proof (cases "0 \<le> cluster x")
    case True
    then have "y \<in> set (free xs)" "z \<in> set (free xs)"
      using "2.prems"(4,5) by (simp_all add: free_Cons)
    from "2.IH"(1) [OF True dxs sxs axs this "2.prems"(6)] "2.prems"(7) True
    show ?thesis by simp
  next
    case False
    let ?c1 = "assign (name x) (ucast (size_m x) :: 32 word) c"
    let ?m1 = "assign (name x) (name x) m"
    let ?r = "scan_cluster (name x) (int (length c)) (adj x) xs ?m1"
    let ?g = "fst (greedy (x # xs) m c)"
    note root = greedy_root(1) [OF "2.prems"(1) False, of m c]
    note member = greedy_member [OF "2.prems"(1) False, of _ m c]
    note later = greedy_later [OF "2.prems"(1,2) False, of _ c m]
    have sym: "name b \<in> adj a \<longleftrightarrow> name a \<in> adj b"
      if "a \<in> set (x # xs)" "b \<in> set (x # xs)" for a b
      using "2.prems"(3) that unfolding sym_adj_def by blast
    have in_xs: "a \<in> set xs" if "a \<in> set (admitted (adj x) xs)" for a
      using that admitted_subset [of "adj x" xs] free_subset [of xs] by auto
    have cases: "a = x \<or> a \<in> set (admitted (adj x) xs) \<or> a \<in> set (free (fst ?r))"
      if "a \<in> set (free (x # xs))" for a
      using that False scan_free_keep [of a xs "adj x" "name x" "int (length c)" ?m1]
      by (auto simp: free_Cons)
    have eq: "map_of ?g (name y) = map_of ?g (name z)"
      using "2.prems"(7) .
    consider (rr) "y = x" "z = x"
      | (rm) "y = x" "z \<in> set (admitted (adj x) xs)"
      | (mr) "y \<in> set (admitted (adj x) xs)" "z = x"
      | (mm) "y \<in> set (admitted (adj x) xs)" "z \<in> set (admitted (adj x) xs)"
      | (head_later) "y = x \<or> y \<in> set (admitted (adj x) xs)" "z \<in> set (free (fst ?r))"
      | (later_head) "y \<in> set (free (fst ?r))" "z = x \<or> z \<in> set (admitted (adj x) xs)"
      | (ll) "y \<in> set (free (fst ?r))" "z \<in> set (free (fst ?r))"
      using cases [OF "2.prems"(4)] cases [OF "2.prems"(5)] by blast
    then show ?thesis
    proof cases
      case rr
      with "2.prems"(6) show ?thesis by simp
    next
      case rm
      with admitted_not_cadj [of z "adj x" xs] show ?thesis by simp
    next
      case mr
      have "name y \<notin> adj x"
        using mr admitted_not_cadj [of y "adj x" xs] by simp
      with sym [of x y] in_xs [OF mr(1)] mr(2) show ?thesis by simp
    next
      case mm
      from sorted_wrt_either [OF admitted_pairwise [of "adj x" xs] mm "2.prems"(6)]
      have "name z \<notin> adj y \<or> name y \<notin> adj z" .
      with sym [of y z] in_xs [OF mm(1)] in_xs [OF mm(2)] show ?thesis by auto
    next
      case head_later
      have "map_of ?g (name y) = Some (name x)"
        using head_later(1) root member by blast
      with later [OF head_later(2)] eq show ?thesis by simp
    next
      case later_head
      have "map_of ?g (name z) = Some (name x)"
        using later_head(2) root member by blast
      with later [OF later_head(1)] eq show ?thesis by simp
    next
      case ll
      have d': "distinct (map name (fst ?r))" and s': "size_sorted (fst ?r)"
        and a': "sym_adj (fst ?r)"
        using dxs sxs axs by (simp_all only: scan_distinct scan_size_sorted scan_sym_adj)
      from eq have "map_of (fst (greedy (fst ?r) (snd ?r) ?c1)) (name y)
          = map_of (fst (greedy (fst ?r) (snd ?r) ?c1)) (name z)"
        by (simp only: greedy_step [OF False])
      from "2.IH"(2) [OF False refl refl refl refl d' s' a' ll "2.prems"(6) this]
      show ?thesis .
    qed
  qed
qed


subsection \<open>The adjacency sets\<close>

lemma overlap_sym: "overlap a b = overlap b a"
  by (auto simp: overlap_def)

lemma nbrs_Cons:
  "nbrs (z # xs) x =
     (if name z \<noteq> name x \<and> overlap (lifetime x) (lifetime z)
      then insert (name z) (nbrs xs x) else nbrs xs x)"
  by (auto simp: nbrs_def)

lemma link_from_fields [simp]:
  "name (link_from x y) = name y" "lifetime (link_from x y) = lifetime y"
  "size_m (link_from x y) = size_m y" "cluster (link_from x y) = cluster y"
  by (simp_all add: link_from_def)

lemma link_into_fields [simp]:
  "name (link_into x y) = name x" "lifetime (link_into x y) = lifetime x"
  "size_m (link_into x y) = size_m x" "cluster (link_into x y) = cluster x"
  by (simp_all add: link_into_def)

lemma nbrs_link_from [simp]: "nbrs xs (link_from z y) = nbrs xs y"
  by (simp add: nbrs_def)

lemma nbrs_map_link_from [simp]: "nbrs (map (link_from z) xs) y = nbrs xs y"
  by (force simp: nbrs_def image_iff)

lemma foldl_link_into_fields [simp]:
  "name (foldl link_into x ys) = name x" "lifetime (foldl link_into x ys) = lifetime x"
  "size_m (foldl link_into x ys) = size_m x" "cluster (foldl link_into x ys) = cluster x"
  by (induction ys arbitrary: x) simp_all

lemma foldl_link_into_adj:
  "adj (foldl link_into x ys)
     = adj x \<union> name ` {y \<in> set ys. overlap (lifetime x) (lifetime y)}"
proof (induction ys arbitrary: x)
  case Nil
  show ?case by simp
next
  case (Cons y ys)
  have "adj (link_into x y)
      = (if overlap (lifetime x) (lifetime y) then insert (name y) (adj x) else adj x)"
    by (simp add: link_into_def)
  then show ?case
    by (simp only: foldl.simps Cons.IH link_into_fields) auto
qed

lemma adj_link_from:
  "adj (link_from x y)
     = (if overlap (lifetime y) (lifetime x) then insert (name x) (adj y) else adj y)"
  by (simp add: link_from_def overlap_sym [of "lifetime x"])

lemma full_adj_fields [simp]:
  "name (full_adj xs x) = name x" "lifetime (full_adj xs x) = lifetime x"
  "size_m (full_adj xs x) = size_m x" "cluster (full_adj xs x) = cluster x"
  "adj (full_adj xs x) = adj x \<union> nbrs xs x"
  by (simp_all add: full_adj_def)

lemma full_adj_link_from:
  assumes "name x \<noteq> name y"
  shows "full_adj (map (link_from x) xs) (link_from x y) = full_adj (x # xs) y"
proof (rule MemNode.equality)
  show "adj (full_adj (map (link_from x) xs) (link_from x y)) = adj (full_adj (x # xs) y)"
    using assms by (auto simp: adj_link_from nbrs_Cons)
qed simp_all

lemma foldl_link_into_full:
  assumes "name x \<notin> name ` set xs"
  shows "foldl link_into x xs = full_adj (x # xs) x"
proof (rule MemNode.equality)
  have "\<forall>y \<in> set xs. name y \<noteq> name x"
    using assms by (metis imageI)
  then have "{y \<in> set xs. overlap (lifetime x) (lifetime y)}
      = {y \<in> set xs. name y \<noteq> name x \<and> overlap (lifetime x) (lifetime y)}"
    by auto
  then have "nbrs xs x = name ` {y \<in> set xs. overlap (lifetime x) (lifetime y)}"
    by (simp add: nbrs_def)
  moreover have "nbrs (x # xs) x = nbrs xs x"
    by (simp add: nbrs_Cons)
  ultimately show "adj (foldl link_into x xs) = adj (full_adj (x # xs) x)"
    by (simp add: foldl_link_into_adj)
qed simp_all

lemma set_adjacent_full:
  "distinct (map name xs) \<Longrightarrow> set_adjacent xs = map (full_adj xs) xs"
proof (induction xs rule: set_adjacent.induct)
  case 1
  show ?case by simp
next
  case (2 x xs)
  have d: "distinct (map name (map (link_from x) xs))"
    using "2.prems" by (simp add: comp_def)
  have nx: "name x \<notin> name ` set xs"
    using "2.prems" by auto
  have "\<forall>y \<in> set xs. name x \<noteq> name y"
    using nx by (metis imageI)
  then have tail: "map (full_adj (map (link_from x) xs)) (map (link_from x) xs)
      = map (full_adj (x # xs)) xs"
    by (simp add: full_adj_link_from)
  show ?case
    using "2.IH" [OF d] foldl_link_into_full [OF nx] tail by simp
qed

subsection \<open>The nodes handed to the greedy pass\<close>

lemma mem_nodes_of_map:
  "mem_nodes_of lcs st = map (mk_node st) (filter (\<lambda>d. map_of st (fst d) \<noteq> None) lcs)"
  by (induction lcs) (auto simp: mk_node_def split: option.splits)

lemma mk_node_fields [simp]:
  "name (mk_node st d) = fst d" "lifetime (mk_node st d) = snd d"
  "cluster (mk_node st d) = - 1" "adj (mk_node st d) = {}"
  "size_m (mk_node st d) = the (map_of st (fst d))"
  by (simp_all add: mk_node_def)

lemma mem_nodes_names:
  "map name (mem_nodes_of lcs st) = filter (\<lambda>k. map_of st k \<noteq> None) (map fst lcs)"
  by (simp add: mem_nodes_of_map comp_def filter_map)

lemma nbrs_cong:
  "set xs = set ys \<Longrightarrow> name x = name y \<Longrightarrow> lifetime x = lifetime y \<Longrightarrow> nbrs xs x = nbrs ys y"
  by (simp add: nbrs_def)

lemma nbrs_self: "name y = name x \<Longrightarrow> name y \<notin> nbrs xs x"
  by (auto simp: nbrs_def)

lemma nbrs_map_full_adj [simp]: "nbrs (map (full_adj zs) xs) y = nbrs xs y"
  by (force simp: nbrs_def image_iff)

lemma plan_nodes_set:
  assumes c: "std_sort_contract srt" and d: "distinct (map fst lcs)"
  shows "set (plan_nodes srt lcs st)
     = full_adj (mem_nodes_of lcs st) ` set (mem_nodes_of lcs st)"
    and "mset (map name (plan_nodes srt lcs st)) = mset (map name (mem_nodes_of lcs st))"
proof -
  let ?ns0 = "mem_nodes_of lcs st"
  have d0: "distinct (map name ?ns0)"
    using d by (simp add: mem_nodes_names)
  have m: "mset (plan_nodes srt lcs st) = mset (map (full_adj ?ns0) ?ns0)"
    using c by (simp add: plan_nodes_def std_sort_contract_def set_adjacent_full [OF d0])
  from arg_cong [OF m, of set_mset]
  show "set (plan_nodes srt lcs st) = full_adj ?ns0 ` set ?ns0"
    by simp
  from arg_cong [OF m, of "image_mset name"]
  show "mset (map name (plan_nodes srt lcs st)) = mset (map name ?ns0)"
    by (simp add: multiset.map_comp comp_def)
qed

lemma plan_nodes_node:
  assumes c: "std_sort_contract srt" and d: "distinct (map fst lcs)"
    and y: "y \<in> set (plan_nodes srt lcs st)"
  shows "map_of lcs (name y) = Some (lifetime y)"
    and "map_of st (name y) = Some (size_m y)"
    and "cluster y = - 1"
    and "adj y = nbrs (plan_nodes srt lcs st) y"
proof -
  let ?ns0 = "mem_nodes_of lcs st"
  from y obtain y0 where y0: "y0 \<in> set ?ns0" and yy: "y = full_adj ?ns0 y0"
    using plan_nodes_set(1) [OF c d, of st] by auto
  from y0 obtain e where e: "e \<in> set lcs" "map_of st (fst e) \<noteq> None" "y0 = mk_node st e"
    by (auto simp: mem_nodes_of_map)
  have "map_of lcs (fst e) = Some (snd e)"
    using e(1) by (simp add: map_of_eq_Some_iff [OF d])
  then show "map_of lcs (name y) = Some (lifetime y)"
    using e yy by simp
  show "map_of st (name y) = Some (size_m y)"
    using e yy by auto
  show "cluster y = - 1"
    using e yy by simp
  have "nbrs (plan_nodes srt lcs st) y = nbrs (map (full_adj ?ns0) ?ns0) y0"
    by (rule nbrs_cong) (simp_all add: plan_nodes_set(1) [OF c d] yy)
  then show "adj y = nbrs (plan_nodes srt lcs st) y"
    using e yy by simp
qed

lemma plan_nodes_names:
  assumes c: "std_sort_contract srt" and d: "distinct (map fst lcs)"
  shows "name ` set (plan_nodes srt lcs st) = dom (map_of lcs) \<inter> dom (map_of st)"
proof -
  have "name ` set (plan_nodes srt lcs st) = set (map name (mem_nodes_of lcs st))"
    using arg_cong [OF plan_nodes_set(2) [OF c d, of st], of set_mset] by simp
  also have "\<dots> = fst ` set lcs \<inter> {k. map_of st k \<noteq> None}"
    by (auto simp: mem_nodes_names)
  also have "\<dots> = dom (map_of lcs) \<inter> dom (map_of st)"
    by (simp only: dom_map_of_conv_image_fst [symmetric] dom_def)
  finally show ?thesis .
qed

lemma plan_nodes_distinct:
  assumes c: "std_sort_contract srt" and d: "distinct (map fst lcs)"
  shows "distinct (map name (plan_nodes srt lcs st))"
proof -
  have "distinct (map name (mem_nodes_of lcs st))"
    using d by (simp add: mem_nodes_names)
  then show ?thesis
    using plan_nodes_set(2) [OF c d, of st] by (metis distinct_count_atmost_1 count_mset_0_iff mset_eq_imp_distinct_iff)
qed

lemma plan_nodes_free:
  assumes c: "std_sort_contract srt" and d: "distinct (map fst lcs)"
  shows "free (plan_nodes srt lcs st) = plan_nodes srt lcs st"
  using plan_nodes_node(3) [OF c d] by (simp add: free_def)

lemma plan_nodes_sorted:
  assumes c: "std_sort_contract srt"
  shows "size_sorted (plan_nodes srt lcs st)"
proof -
  have "(\<lambda>a b. \<not> sort_func b a) = (\<lambda>a b. size_m b \<le> size_m a)"
    by (auto simp: sort_func_def fun_eq_iff)
  with c show ?thesis
    by (simp add: std_sort_contract_def plan_nodes_def size_sorted_def)
qed

lemma plan_nodes_sym:
  assumes c: "std_sort_contract srt" and d: "distinct (map fst lcs)"
  shows "sym_adj (plan_nodes srt lcs st)"
  unfolding sym_adj_def
proof (intro ballI)
  fix a b
  assume a: "a \<in> set (plan_nodes srt lcs st)" and b: "b \<in> set (plan_nodes srt lcs st)"
  show "name b \<in> adj a \<longleftrightarrow> name a \<in> adj b"
  proof (cases "name a = name b")
    case True
    then show ?thesis
      using nbrs_self [of b a] nbrs_self [of a b]
      by (simp add: plan_nodes_node(4) [OF c d a] plan_nodes_node(4) [OF c d b])
  next
    case False
    have "name b \<in> nbrs (plan_nodes srt lcs st) a \<longleftrightarrow> overlap (lifetime a) (lifetime b)"
      using False b plan_nodes_node(1) [OF c d, of _ st]
      by (auto simp: nbrs_def image_iff) (metis option.inject)+
    moreover have "name a \<in> nbrs (plan_nodes srt lcs st) b \<longleftrightarrow> overlap (lifetime b) (lifetime a)"
      using False a plan_nodes_node(1) [OF c d, of _ st]
      by (auto simp: nbrs_def image_iff) (metis option.inject)+
    ultimately show ?thesis
      by (simp add: plan_nodes_node(4) [OF c d a] plan_nodes_node(4) [OF c d b]
          overlap_sym [of "lifetime a"])
  qed
qed

subsection \<open>The plan\<close>

lemma plan_unfold: "MakeSimpleReusePlan srt lcs st m c = greedy (plan_nodes srt lcs st) m c"
  by (simp add: MakeSimpleReusePlan_def plan_nodes_def)

lemma plan_node_of_name:
  assumes c: "std_sort_contract srt" and d: "distinct (map fst lcs)"
    and u: "map_of lcs u = Some a" "map_of st u = Some s"
  obtains y where "y \<in> set (plan_nodes srt lcs st)" "name y = u" "lifetime y = a" "size_m y = s"
proof -
  have "u \<in> name ` set (plan_nodes srt lcs st)"
    using u by (auto simp: plan_nodes_names [OF c d])
  then obtain y where y: "y \<in> set (plan_nodes srt lcs st)" "name y = u"
    by auto
  with plan_nodes_node(1,2) [OF c d y(1)] u that show thesis
    by simp
qed

lemma plan_dom:
  assumes c: "std_sort_contract srt" and d: "distinct (map fst lcs)"
  shows "dom (map_of (fst (MakeSimpleReusePlan srt lcs st [] [])))
     = dom (map_of lcs) \<inter> dom (map_of st)"
proof -
  let ?ns = "plan_nodes srt lcs st"
  have "map_of (fst (greedy ?ns [] [])) k \<noteq> None \<longleftrightarrow> k \<in> name ` set ?ns" for k
  proof (cases "k \<in> name ` set ?ns")
    case True
    then obtain y where y: "y \<in> set (free ?ns)" "name y = k"
      by (auto simp: plan_nodes_free [OF c d])
    from greedy_rep [OF plan_nodes_distinct [OF c d] plan_nodes_sorted [OF c] y(1), of "[]" "[]"]
    show ?thesis using True y(2) by auto
  next
    case False
    then have "k \<notin> name ` set (free ?ns)"
      by (simp add: plan_nodes_free [OF c d])
    from greedy_frame [OF this, of "[]" "[]"] False show ?thesis
      by simp
  qed
  then show ?thesis
    by (auto simp: plan_unfold plan_nodes_names [OF c d, symmetric] simp del: map_of_eq_None_iff)
qed

lemma plan_rep:
  assumes c: "std_sort_contract srt" and d: "distinct (map fst lcs)"
    and v: "map_of lcs v = Some a" "map_of st v = Some sv"
  shows "\<exists>r sr. r \<in> dom (map_of lcs) \<and> map_of st r = Some sr \<and>
           map_of (fst (MakeSimpleReusePlan srt lcs st [] [])) v = Some r \<and>
           map_of (fst (MakeSimpleReusePlan srt lcs st [] [])) r = Some r \<and>
           map_of (snd (MakeSimpleReusePlan srt lcs st [] [])) r = Some (ucast sr) \<and>
           sv \<le> sr"
proof -
  let ?ns = "plan_nodes srt lcs st"
  obtain y where y: "y \<in> set ?ns" "name y = v" "size_m y = sv"
    using plan_node_of_name [OF c d v] by blast
  then have "y \<in> set (free ?ns)"
    by (simp add: plan_nodes_free [OF c d])
  from greedy_rep [OF plan_nodes_distinct [OF c d] plan_nodes_sorted [OF c] this, of "[]" "[]"]
  obtain r where r: "r \<in> set ?ns"
    "map_of (fst (greedy ?ns [] [])) (name y) = Some (name r)"
    "map_of (fst (greedy ?ns [] [])) (name r) = Some (name r)"
    "map_of (snd (greedy ?ns [] [])) (name r) = Some (ucast (size_m r))"
    "size_m y \<le> size_m r"
    by (auto simp: plan_nodes_free [OF c d])
  have "name r \<in> dom (map_of lcs)" "map_of st (name r) = Some (size_m r)"
    using plan_nodes_node(1,2) [OF c d r(1)] by auto
  with r y show ?thesis
    by (auto simp: plan_unfold)
qed


lemma plan_indep:
  assumes c: "std_sort_contract srt" and d: "distinct (map fst lcs)"
    and u: "map_of lcs u = Some a" "map_of st u = Some su"
    and v: "map_of lcs v = Some b" "map_of st v = Some sv"
    and ne: "u \<noteq> v" and ov: "overlap a b"
  shows "map_of (fst (MakeSimpleReusePlan srt lcs st [] [])) u
     \<noteq> map_of (fst (MakeSimpleReusePlan srt lcs st [] [])) v"
proof
  let ?ns = "plan_nodes srt lcs st"
  assume eq: "map_of (fst (MakeSimpleReusePlan srt lcs st [] [])) u
     = map_of (fst (MakeSimpleReusePlan srt lcs st [] [])) v"
  obtain y where y: "y \<in> set ?ns" "name y = u" "lifetime y = a"
    using plan_node_of_name [OF c d u] by blast
  obtain z where z: "z \<in> set ?ns" "name z = v" "lifetime z = b"
    using plan_node_of_name [OF c d v] by blast
  have fr: "y \<in> set (free ?ns)" "z \<in> set (free ?ns)" and yz: "y \<noteq> z"
    using y z ne by (auto simp: plan_nodes_free [OF c d])
  have "name z \<in> nbrs ?ns y"
    using y z ne ov by (auto simp: nbrs_def)
  then have "name z \<in> adj y"
    by (simp add: plan_nodes_node(4) [OF c d y(1)])
  moreover have "name z \<notin> adj y"
    using greedy_indep [OF plan_nodes_distinct [OF c d] plan_nodes_sorted [OF c]
        plan_nodes_sym [OF c d] fr yz, of "[]" "[]"] eq y(2) z(2)
    by (simp add: plan_unfold)
  ultimately show False by simp
qed


lemma insert_sorted_mset: "mset (insert_sorted a bs) = add_mset a (mset bs)"
  by (induction bs) simp_all

lemma insert_sorted_sorted:
  "size_sorted bs \<Longrightarrow> size_sorted (insert_sorted a bs)"
proof (induction bs)
  case Nil
  show ?case by (simp add: size_sorted_def)
next
  case (Cons b bs)
  have "set (insert_sorted a bs) = insert a (set bs)"
    using arg_cong [OF insert_sorted_mset [of a bs], of set_mset] by simp
  with Cons show ?case
    by (auto simp: size_sorted_def sort_func_def)
qed

lemma insertion_sort_contract: "std_sort_contract insertion_sort"
proof -
  have m: "mset (insertion_sort xs) = mset xs" for xs
    by (induction xs) (simp_all add: insert_sorted_mset)
  have s: "size_sorted (insertion_sort xs)" for xs
    by (induction xs) (simp_all add: insert_sorted_sorted, simp add: size_sorted_def)
  have "(\<lambda>a b. \<not> sort_func b a) = (\<lambda>a b. size_m b \<le> size_m a)"
    by (auto simp: sort_func_def fun_eq_iff)
  with m s show ?thesis
    by (simp add: std_sort_contract_def size_sorted_def)
qed


lemma scenario_plan:
  "MakeSimpleReusePlan insertion_sort scenario_lifecycles scenario_space_table [] []
     = ([(''A'', ''A''), (''B'', ''A''), (''C'', ''C'')], [(''A'', 100), (''C'', 80)])"
  by (simp add: MakeSimpleReusePlan_def scenario_lifecycles_def scenario_space_table_def
      overlap_def link_into_def link_from_def sort_func_def)

lemma size_sorted_unique:
  assumes m: "mset xs = mset ys" and sx: "size_sorted xs" and sy: "size_sorted ys"
    and dx: "distinct (map size_m xs)"
  shows "xs = ys"
proof -
  have set_eq: "set xs = set ys"
    using m by (rule mset_eq_setD)
  have mm: "mset (map size_m xs) = mset (map size_m ys)"
    using m by simp
  have dy: "distinct (map size_m ys)"
    using dx mset_eq_imp_distinct_iff [OF mm] by simp
  have "sorted (rev (map size_m xs))" "sorted (rev (map size_m ys))"
    using sx sy by (simp_all add: size_sorted_def sorted_wrt_rev sorted_wrt_map)
  moreover have "distinct (rev (map size_m xs))" "distinct (rev (map size_m ys))"
    using dx dy by simp_all
  moreover have "set (rev (map size_m xs)) = set (rev (map size_m ys))"
    using set_eq by simp
  ultimately have "rev (map size_m xs) = rev (map size_m ys)"
    by (intro sorted_distinct_set_unique)
  then have "map size_m xs = map size_m ys"
    by simp
  moreover have "inj_on size_m (set xs \<union> set ys)"
    using dx set_eq by (simp add: distinct_map)
  ultimately show ?thesis
    by (simp add: inj_on_map_eq_map)
qed

lemma full_adj_cong: "set xs = set ys \<Longrightarrow> full_adj xs = full_adj ys"
  by (simp add: full_adj_def nbrs_def fun_eq_iff)

lemma mem_nodes_of_cong:
  "map_of st1 = map_of st2 \<Longrightarrow> mem_nodes_of lcs st1 = mem_nodes_of lcs st2"
  by (simp add: mem_nodes_of_map mk_node_def)

lemma plan_nodes_mset:
  assumes c: "std_sort_contract srt" and d: "distinct (map fst lcs)"
  shows "mset (plan_nodes srt lcs st)
     = image_mset (full_adj (mem_nodes_of lcs st)) (mset (mem_nodes_of lcs st))"
proof -
  have "distinct (map name (mem_nodes_of lcs st))"
    using d by (simp add: mem_nodes_names)
  then show ?thesis
    using c by (simp add: plan_nodes_def std_sort_contract_def set_adjacent_full)
qed

lemma plan_nodes_unique:
  assumes c1: "std_sort_contract srt1" and c2: "std_sort_contract srt2"
    and d1: "distinct (map fst lcs1)" and d2: "distinct (map fst lcs2)"
    and same: "map_of lcs1 = map_of lcs2" and st: "map_of st1 = map_of st2"
    and inj: "inj_on (map_of st1) (dom (map_of lcs1) \<inter> dom (map_of st1))"
  shows "plan_nodes srt1 lcs1 st1 = plan_nodes srt2 lcs2 st2"
proof (rule size_sorted_unique)
  let ?ns1 = "plan_nodes srt1 lcs1 st1"
  have "set lcs1 = set lcs2"
    using same map_of_inject_set [OF d1 d2] by simp
  moreover have "distinct lcs1" "distinct lcs2"
    using d1 d2 by (simp_all add: distinct_map)
  ultimately have "mset lcs1 = mset lcs2"
    by (simp add: set_eq_iff_mset_eq_distinct)
  then have "mset (mem_nodes_of lcs1 st1) = mset (mem_nodes_of lcs2 st1)"
    by (simp add: mem_nodes_of_map)
  then have m0: "mset (mem_nodes_of lcs1 st1) = mset (mem_nodes_of lcs2 st2)"
    by (simp add: mem_nodes_of_cong [OF st])
  from m0 have "full_adj (mem_nodes_of lcs1 st1) = full_adj (mem_nodes_of lcs2 st2)"
    by (intro full_adj_cong mset_eq_setD)
  with m0 show "mset ?ns1 = mset (plan_nodes srt2 lcs2 st2)"
    by (simp add: plan_nodes_mset [OF c1 d1] plan_nodes_mset [OF c2 d2])
  show "size_sorted ?ns1" "size_sorted (plan_nodes srt2 lcs2 st2)"
    by (rule plan_nodes_sorted [OF c1], rule plan_nodes_sorted [OF c2])
  have dn: "distinct (map name ?ns1)"
    by (rule plan_nodes_distinct [OF c1 d1])
  have "inj_on size_m (set ?ns1)"
  proof (rule inj_onI)
    fix y z
    assume y: "y \<in> set ?ns1" and z: "z \<in> set ?ns1" and eq: "size_m y = size_m z"
    have "map_of st1 (name y) = map_of st1 (name z)"
      using plan_nodes_node(2) [OF c1 d1 y] plan_nodes_node(2) [OF c1 d1 z] eq by simp
    moreover have "name y \<in> dom (map_of lcs1) \<inter> dom (map_of st1)"
      "name z \<in> dom (map_of lcs1) \<inter> dom (map_of st1)"
      using y z plan_nodes_names [OF c1 d1, of st1] by blast+
    ultimately have "name y = name z"
      using inj by (auto dest: inj_onD)
    with dn y z show "y = z"
      by (auto simp: distinct_map dest: inj_onD)
  qed
  with dn show "distinct (map size_m ?ns1)"
    by (simp add: distinct_map)
qed

lemma reverse_sort_contract: "std_sort_contract reverse_sort"
  using insertion_sort_contract by (simp add: std_sort_contract_def reverse_sort_def)

lemma scenario_same_map: "map_of scenario_lifecycles = map_of scenario_lifecycles'"
  by (rule ext) (simp add: scenario_lifecycles_def scenario_lifecycles'_def)

lemma scenario_sizes_distinct:
  "inj_on (map_of scenario_space_table)
     (dom (map_of scenario_lifecycles) \<inter> dom (map_of scenario_space_table))"
  by (simp add: scenario_lifecycles_def scenario_space_table_def inj_on_def)

section \<open>Properties of the collectors\<close>

subsection \<open>The shape error of CollectLifeCycle\<close>

lemma visit_req_error:
  "(\<exists>e. visit_req h step ps lc = Inl e) \<longleftrightarrow> (\<exists>p \<in> set ps. bad_shape h p)"
  by (induction ps arbitrary: lc) (auto simp: bad_shape_def split: option.splits)

lemma visit_req_error_value: "visit_req h step ps lc = Inl e \<Longrightarrow> e = shape_error"
  by (induction ps arbitrary: lc) (auto simp: shape_error_def split: option.splits if_splits)

lemma collect_loop_error:
  "(\<exists>e. collect_loop h ps step lc = Inl e) \<longleftrightarrow>
   (\<exists>op \<in> set ps. IsOp (h op) \<and> Name (h op) \<noteq> ''feed''
      \<and> (\<exists>p \<in> set (inputs (h op) @ outputs (h op)). bad_shape h p))"
proof (induction ps arbitrary: step lc)
  case Nil
  show ?case by simp
next
  case (Cons op ps)
  show ?case
  proof (cases "IsOp (h op) \<and> Name (h op) \<noteq> ''feed''")
    case False
    then show ?thesis
      using Cons.IH by auto
  next
    case True
    show ?thesis
    proof (cases "visit_req h step (inputs (h op) @ outputs (h op)) lc")
      case (Inl e)
      then have "\<exists>p \<in> set (inputs (h op) @ outputs (h op)). bad_shape h p"
        using visit_req_error [of h step "inputs (h op) @ outputs (h op)" lc] by blast
      with Inl True show ?thesis
        by auto
    next
      case (Inr lc')
      then have "\<not> (\<exists>p \<in> set (inputs (h op) @ outputs (h op)). bad_shape h p)"
        using visit_req_error [of h step "inputs (h op) @ outputs (h op)" lc] by auto
      with Inr True show ?thesis
        using Cons.IH [of "step + 1" lc'] by auto
    qed
  qed
qed

lemma collect_loop_error_value: "collect_loop h ps step lc = Inl e \<Longrightarrow> e = shape_error"
  by (induction ps arbitrary: step lc)
    (auto split: if_splits sum.splits dest: visit_req_error_value)

subsection \<open>The intervals CollectLifeCycle returns\<close>

lemma set_assign: "set (assign k v m) \<subseteq> insert (k, v) (set m)"
  by (induction m) auto

lemma intervals_ok_assign:
  "intervals_ok lc \<Longrightarrow> 0 \<le> snd v \<Longrightarrow> fst v \<le> INT_MAX \<Longrightarrow> intervals_ok (assign k v lc)"
  using set_assign [of k v lc] by (auto simp: intervals_ok_def)

lemma intervals_ok_emplace:
  "intervals_ok lc \<Longrightarrow> intervals_ok (emplace k (0, INT_MAX) lc)"
  by (auto simp: emplace_def INT_MAX_def intro!: intervals_ok_assign split: option.splits)

lemma intervals_ok_feed: "intervals_ok lc \<Longrightarrow> intervals_ok (feed_outputs h ps lc)"
  by (induction ps arbitrary: lc) (simp_all add: intervals_ok_emplace)

lemma intervals_ok_record_use:
  assumes "intervals_ok lc" and "0 \<le> step" and "step \<le> INT_MAX"
  shows "intervals_ok (record_use step var lc)"
proof (cases "map_of lc var")
  case None
  with assms show ?thesis
    by (simp add: record_use_def intervals_ok_assign)
next
  case (Some l)
  then have "(var, l) \<in> set lc"
    by (rule map_of_SomeD)
  with assms(1) have "fst l \<le> INT_MAX"
    by (auto simp: intervals_ok_def)
  with assms Some show ?thesis
    by (simp add: record_use_def intervals_ok_assign)
qed

lemma intervals_ok_visit_req:
  "intervals_ok lc \<Longrightarrow> 0 \<le> step \<Longrightarrow> step \<le> INT_MAX \<Longrightarrow>
   visit_req h step ps lc = Inr lc' \<Longrightarrow> intervals_ok lc'"
  by (induction ps arbitrary: lc)
    (auto split: option.splits if_splits intro: intervals_ok_record_use)

lemma intervals_ok_collect_loop:
  "intervals_ok lc \<Longrightarrow> 0 \<le> step \<Longrightarrow> step + int (length ps) \<le> INT_MAX \<Longrightarrow>
   collect_loop h ps step lc = Inr lc' \<Longrightarrow> intervals_ok lc'"
proof (induction ps arbitrary: step lc)
  case Nil
  then show ?case by simp
next
  case (Cons p ps)
  consider (skip) "\<not> IsOp (h p)" | (feed) "IsOp (h p)" "Name (h p) = ''feed''"
    | (normal) "IsOp (h p)" "Name (h p) \<noteq> ''feed''"
    by blast
  then show ?case
  proof cases
    case skip
    with Cons.prems Cons.IH [of lc step] show ?thesis
      by simp
  next
    case feed
    with Cons.prems Cons.IH [of "feed_outputs h (outputs (h p)) lc" "step + 1"]
    show ?thesis
      by (simp add: intervals_ok_feed)
  next
    case normal
    with Cons.prems obtain lc1 where
      v: "visit_req h step (inputs (h p) @ outputs (h p)) lc = Inr lc1"
      and r: "collect_loop h ps (step + 1) lc1 = Inr lc'"
      by (auto split: sum.splits)
    have "intervals_ok lc1"
      using intervals_ok_visit_req [OF Cons.prems(1,2) _ v] Cons.prems(3) by simp
    with Cons.prems r Cons.IH [of lc1 "step + 1"] show ?thesis
      by simp
  qed
qed

lemma CollectLifeCycle_intervals:
  assumes "CollectLifeCycle h order [] = Inr lc" and "int (length order) \<le> INT_MAX"
    and "(k, l) \<in> set lc"
  shows "0 \<le> snd l" and "fst l \<le> INT_MAX"
  using intervals_ok_collect_loop [of "[]" 0 order h lc] assms
  by (auto simp: CollectLifeCycle_def intervals_ok_def)

lemma emplace_keeps: "map_of lc k = Some v \<Longrightarrow> map_of (emplace k' v' lc) k = Some v"
  by (auto simp: emplace_def map_of_assign split: option.splits)

lemma feed_outputs_keeps:
  "map_of lc k = Some v \<Longrightarrow> map_of (feed_outputs h ps lc) k = Some v"
  by (induction ps arbitrary: lc) (simp_all add: emplace_keeps)

lemma feed_outputs_records:
  "p \<in> set ps \<Longrightarrow> map_of lc (Name (h p)) = None \<Longrightarrow>
   map_of (feed_outputs h ps lc) (Name (h p)) = Some (0, INT_MAX)"
proof (induction ps arbitrary: lc)
  case Nil
  then show ?case by simp
next
  case (Cons q ps)
  show ?case
  proof (cases "Name (h q) = Name (h p)")
    case True
    with Cons.prems(2) have "map_of (emplace (Name (h q)) (0, INT_MAX) lc) (Name (h p))
        = Some (0, INT_MAX)"
      by (simp add: emplace_def map_of_assign)
    then show ?thesis
      by (simp add: feed_outputs_keeps)
  next
    case False
    with Cons.prems have "p \<in> set ps"
      and "map_of (emplace (Name (h q)) (0, INT_MAX) lc) (Name (h p)) = None"
      by (auto simp: emplace_def map_of_assign split: option.splits)
    then show ?thesis
      using Cons.IH by simp
  qed
qed

lemma record_use_keeps_feed:
  "map_of lc u = Some (0, INT_MAX) \<Longrightarrow> step \<le> INT_MAX \<Longrightarrow>
   map_of (record_use step var lc) u = Some (0, INT_MAX)"
  by (auto simp: record_use_def map_of_assign split: option.splits)

lemma visit_req_keeps_feed:
  "map_of lc u = Some (0, INT_MAX) \<Longrightarrow> step \<le> INT_MAX \<Longrightarrow>
   visit_req h step ps lc = Inr lc' \<Longrightarrow> map_of lc' u = Some (0, INT_MAX)"
  by (induction ps arbitrary: lc)
    (auto split: option.splits if_splits intro: record_use_keeps_feed)

lemma collect_loop_keeps_feed:
  "map_of lc u = Some (0, INT_MAX) \<Longrightarrow> step + int (length ps) \<le> INT_MAX \<Longrightarrow>
   collect_loop h ps step lc = Inr lc' \<Longrightarrow> map_of lc' u = Some (0, INT_MAX)"
proof (induction ps arbitrary: step lc)
  case Nil
  then show ?case by simp
next
  case (Cons p ps)
  consider (skip) "\<not> IsOp (h p)" | (feed) "IsOp (h p)" "Name (h p) = ''feed''"
    | (normal) "IsOp (h p)" "Name (h p) \<noteq> ''feed''"
    by blast
  then show ?case
  proof cases
    case skip
    with Cons.prems Cons.IH [of lc step] show ?thesis
      by simp
  next
    case feed
    with Cons.prems Cons.IH [of "feed_outputs h (outputs (h p)) lc" "step + 1"]
    show ?thesis
      by (simp add: feed_outputs_keeps)
  next
    case normal
    with Cons.prems obtain lc1 where
      v: "visit_req h step (inputs (h p) @ outputs (h p)) lc = Inr lc1"
      and r: "collect_loop h ps (step + 1) lc1 = Inr lc'"
      by (auto split: sum.splits)
    have "map_of lc1 u = Some (0, INT_MAX)"
      using visit_req_keeps_feed [OF Cons.prems(1) _ v] Cons.prems(2) by simp
    with Cons.prems r Cons.IH [of lc1 "step + 1"] show ?thesis
      by simp
  qed
qed

text \<open>
  What the feed branch records: when the loop reaches a \<^verbatim>\<open>feed\<close> operator and an output
  of it has no entry yet, that output ends with the interval \<open>(0, INT_MAX)\<close>.
\<close>

lemma feed_branch_records:
  assumes "IsOp (h op)" and "Name (h op) = ''feed''" and "p \<in> set (outputs (h op))"
    and "map_of lc (Name (h p)) = None"
    and "step + 1 + int (length ps) \<le> INT_MAX"
    and "collect_loop h (op # ps) step lc = Inr lc'"
  shows "map_of lc' (Name (h p)) = Some (0, INT_MAX)"
proof -
  have "map_of (feed_outputs h (outputs (h op)) lc) (Name (h p)) = Some (0, INT_MAX)"
    using assms(3,4) by (rule feed_outputs_records)
  moreover have "collect_loop h ps (step + 1) (feed_outputs h (outputs (h op)) lc) = Inr lc'"
    using assms(1,2,6) by simp
  ultimately show ?thesis
    using assms(5) collect_loop_keeps_feed by simp
qed

lemma plan_alone:
  assumes c: "std_sort_contract srt" and d: "distinct (map fst lcs)"
    and u: "map_of lcs u = Some a" "map_of st u = Some su"
    and all: "\<And>v b. v \<noteq> u \<Longrightarrow> map_of lcs v = Some b \<Longrightarrow> overlap a b"
  shows "map_of (fst (MakeSimpleReusePlan srt lcs st [] [])) u = Some u"
    and "v \<noteq> u \<Longrightarrow> map_of (fst (MakeSimpleReusePlan srt lcs st [] [])) v \<noteq> Some u"
proof -
  let ?n2c = "fst (MakeSimpleReusePlan srt lcs st [] [])"
  have sep: "map_of ?n2c v \<noteq> map_of ?n2c u" if "v \<noteq> u" "map_of ?n2c v \<noteq> None" for v
  proof -
    have "v \<in> dom (map_of lcs) \<inter> dom (map_of st)"
      using that(2) plan_dom [OF c d, of st] by blast
    then obtain b sv where v: "map_of lcs v = Some b" "map_of st v = Some sv"
      by blast
    from plan_indep [OF c d u v that(1) [symmetric] all [OF that(1) v(1)]]
    show ?thesis by simp
  qed
  from plan_rep [OF c d u] obtain r where r: "map_of ?n2c u = Some r" "map_of ?n2c r = Some r"
    by blast
  have "r = u"
    using sep [of r] r by auto
  with r show self: "map_of ?n2c u = Some u"
    by simp
  show "map_of ?n2c v \<noteq> Some u" if "v \<noteq> u"
    using sep [OF that] self by auto
qed

subsection \<open>The size table\<close>

lemma check_ops_True:
  "check_ops h ps = Inr True \<Longrightarrow> \<forall>p \<in> set ps. OpType (h p) \<notin> set invalid_op"
  by (induction ps) (auto split: if_splits)

lemma valid_var_True:
  assumes "valid_var h node = Inr True"
  shows "\<forall>p \<in> set (inputs node @ outputs node). OpType (h p) \<notin> set invalid_op"
proof -
  from assms have "check_ops h (inputs node) = Inr True" "check_ops h (outputs node) = Inr True"
    by (auto simp: valid_var_def split: sum.splits if_splits)
  then show ?thesis
    using check_ops_True by auto
qed

lemma collect_black_list_Inr:
  "collect_black_list h ps bl = Inr bl' \<Longrightarrow>
   bl \<subseteq> bl' \<and>
   (\<forall>p \<in> set ps. \<forall>d. dense_var (h p) = Some d \<longrightarrow>
      valid_var h (h p) = Inr True \<or> VarName d \<in> bl')"
proof (induction ps arbitrary: bl)
  case Nil
  then show ?case by simp
next
  case (Cons p ps)
  show ?case
  proof (cases "dense_var (h p)")
    case None
    with Cons show ?thesis by simp
  next
    case (Some d)
    with Cons.prems obtain ok where ok: "valid_var h (h p) = Inr ok"
      and rest: "collect_black_list h ps (if ok then bl else insert (VarName d) bl) = Inr bl'"
      by (auto split: sum.splits)
    from Cons.IH [OF rest] Some ok show ?thesis
      by (cases ok) auto
  qed
qed

lemma collect_sizes_dom:
  "k \<in> dom (map_of (collect_sizes S h ps bl st)) \<longleftrightarrow>
   k \<in> dom (map_of st) \<or>
   (\<exists>p \<in> set ps. \<exists>d. dense_var (h p) = Some d \<and> VarName d = k \<and> k \<notin> bl \<and> \<not> Persistable d)"
proof (induction ps arbitrary: st)
  case Nil
  show ?case by simp
next
  case (Cons p ps)
  show ?case
  proof (cases "dense_var (h p)")
    case None
    with Cons.IH [of st] show ?thesis by simp
  next
    case (Some d)
    show ?thesis
    proof (cases "VarName d \<in> bl \<or> Persistable d")
      case True
      with Some Cons.IH [of st] show ?thesis by auto
    next
      case False
      have "dom (map_of (assign (VarName d) (tensor_size S d) st))
          = insert (VarName d) (dom (map_of st))"
        by (simp add: map_of_assign)
      with False Some Cons.IH [of "assign (VarName d) (tensor_size S d) st"] show ?thesis
        by (simp del: map_of_eq_None_iff) blast
    qed
  qed
qed

lemma CollectVarMemorySize_dom:
  assumes "CollectVarMemorySize S g [] = Inr st" and "k \<in> dom (map_of st)"
  shows "\<exists>p \<in> set (Nodes g). \<exists>d. dense_var (deref g p) = Some d \<and> VarName d = k
           \<and> \<not> Persistable d"
    and "\<forall>p \<in> set (Nodes g). \<forall>d. dense_var (deref g p) = Some d \<and> VarName d = k \<longrightarrow>
           (\<forall>op \<in> set (inputs (deref g p) @ outputs (deref g p)).
              OpType (deref g op) \<notin> set invalid_op)"
proof -
  from assms(1) obtain bl where bl: "collect_black_list (deref g) (Nodes g) {} = Inr bl"
    and st: "st = collect_sizes S (deref g) (Nodes g) bl []"
    by (auto simp: CollectVarMemorySize_def split: sum.splits)
  from assms(2) have k: "\<exists>p \<in> set (Nodes g). \<exists>d. dense_var (deref g p) = Some d \<and> VarName d = k
      \<and> k \<notin> bl \<and> \<not> Persistable d"
    by (simp add: st collect_sizes_dom)
  then show "\<exists>p \<in> set (Nodes g). \<exists>d. dense_var (deref g p) = Some d \<and> VarName d = k
      \<and> \<not> Persistable d"
    by blast
  from k have "k \<notin> bl"
    by blast
  with collect_black_list_Inr [OF bl]
  have "\<forall>p \<in> set (Nodes g). \<forall>d. dense_var (deref g p) = Some d \<and> VarName d = k \<longrightarrow>
      valid_var (deref g) (deref g p) = Inr True"
    by blast
  then show "\<forall>p \<in> set (Nodes g). \<forall>d. dense_var (deref g p) = Some d \<and> VarName d = k \<longrightarrow>
           (\<forall>op \<in> set (inputs (deref g p) @ outputs (deref g p)).
              OpType (deref g op) \<notin> set invalid_op)"
    using valid_var_True by blast
qed

lemma collect_sizes_keeps:
  assumes "map_of st (VarName d) = Some (tensor_size S d)"
    and "\<forall>q \<in> set ps. \<forall>d'. dense_var (h q) = Some d' \<and> VarName d' = VarName d \<longrightarrow> d' = d"
  shows "map_of (collect_sizes S h ps bl st) (VarName d) = Some (tensor_size S d)"
  using assms
proof (induction ps arbitrary: st)
  case Nil
  then show ?case by simp
next
  case (Cons q ps)
  show ?case
  proof (cases "dense_var (h q)")
    case None
    with Cons show ?thesis by simp
  next
    case (Some d')
    have "map_of (assign (VarName d') (tensor_size S d') st) (VarName d)
        = Some (tensor_size S d)"
      using Cons.prems Some by (auto simp: map_of_assign)
    with Cons Some show ?thesis
      by simp
  qed
qed

text \<open>
  The entry of a dense-tensor variable that is neither blacklisted nor persistable,
  when the nodes that carry its name carry its descriptor.
\<close>

lemma collect_sizes_value:
  assumes "p \<in> set ps" and "dense_var (h p) = Some d" and "VarName d \<notin> bl"
    and "\<not> Persistable d"
    and "\<forall>q \<in> set ps. \<forall>d'. dense_var (h q) = Some d' \<and> VarName d' = VarName d \<longrightarrow> d' = d"
  shows "map_of (collect_sizes S h ps bl st) (VarName d) = Some (tensor_size S d)"
  using assms
proof (induction ps arbitrary: st)
  case Nil
  then show ?case by simp
next
  case (Cons q ps)
  have same: "\<forall>q \<in> set ps. \<forall>d'. dense_var (h q) = Some d' \<and> VarName d' = VarName d \<longrightarrow> d' = d"
    using Cons.prems(5) by simp
  show ?case
  proof (cases "q = p")
    case True
    with Cons.prems show ?thesis
      using collect_sizes_keeps [OF _ same, of "assign (VarName d) (tensor_size S d) st" S bl]
      by (simp add: map_of_assign)
  next
    case False
    with Cons.prems(1) have "p \<in> set ps"
      by simp
    from Cons.IH [OF this Cons.prems(2,3,4) same] show ?thesis
      by (simp split: option.splits)
  qed
qed


lemma check_ops_False:
  "check_ops h ps = Inr False \<Longrightarrow> \<exists>p \<in> set ps. OpType (h p) \<in> set invalid_op"
  by (induction ps) (auto split: if_splits)

lemma valid_var_False:
  assumes "valid_var h node = Inr False"
  shows "\<exists>p \<in> set (inputs node @ outputs node). OpType (h p) \<in> set invalid_op"
proof -
  from assms have "check_ops h (inputs node) = Inr False \<or> check_ops h (outputs node) = Inr False"
    by (auto simp: valid_var_def split: sum.splits if_splits)
  then show ?thesis
    using check_ops_False by auto
qed

lemma collect_black_list_mem:
  "collect_black_list h ps bl = Inr bl' \<Longrightarrow> k \<in> bl' \<Longrightarrow>
   k \<in> bl \<or> (\<exists>p \<in> set ps. \<exists>d. dense_var (h p) = Some d \<and> VarName d = k
                 \<and> valid_var h (h p) = Inr False)"
proof (induction ps arbitrary: bl)
  case Nil
  then show ?case by simp
next
  case (Cons p ps)
  show ?case
  proof (cases "dense_var (h p)")
    case None
    with Cons show ?thesis by simp
  next
    case (Some d)
    with Cons.prems obtain ok where ok: "valid_var h (h p) = Inr ok"
      and rest: "collect_black_list h ps (if ok then bl else insert (VarName d) bl) = Inr bl'"
      by (auto split: sum.splits)
    from Cons.IH [OF rest Cons.prems(2)] Some ok show ?thesis
      by (cases ok) auto
  qed
qed

text \<open>
  The entry of a dense-tensor variable that is not persistable and that no blacklisted
  operator touches: the size computed from its descriptor.
\<close>

lemma CollectVarMemorySize_entry:
  assumes "CollectVarMemorySize S g [] = Inr st"
    and "p \<in> set (Nodes g)" and "dense_var (deref g p) = Some d" and "\<not> Persistable d"
    and "\<forall>q \<in> set (Nodes g). \<forall>d'. dense_var (deref g q) = Some d' \<and> VarName d' = VarName d
           \<longrightarrow> d' = d \<and> (\<forall>op \<in> set (inputs (deref g q) @ outputs (deref g q)).
                            OpType (deref g op) \<notin> set invalid_op)"
  shows "map_of st (VarName d) = Some (tensor_size S d)"
proof -
  from assms(1) obtain bl where bl: "collect_black_list (deref g) (Nodes g) {} = Inr bl"
    and st: "st = collect_sizes S (deref g) (Nodes g) bl []"
    by (auto simp: CollectVarMemorySize_def split: sum.splits)
  have nb: "VarName d \<notin> bl"
  proof
    assume "VarName d \<in> bl"
    from collect_black_list_mem [OF bl this] obtain q d' where
      q: "q \<in> set (Nodes g)" "dense_var (deref g q) = Some d'" "VarName d' = VarName d"
        "valid_var (deref g) (deref g q) = Inr False"
      by auto
    from valid_var_False [OF q(4)] assms(5) q(1,2,3) show False
      by blast
  qed
  have "\<forall>q \<in> set (Nodes g). \<forall>d'.
      dense_var (deref g q) = Some d' \<and> VarName d' = VarName d \<longrightarrow> d' = d"
    using assms(5) by blast
  from collect_sizes_value [OF assms(2,3) nb assms(4) this] show ?thesis
    by (simp add: st)
qed

lemma plan_dom_subset:
  assumes "std_sort_contract srt" and "distinct (map fst lcs)"
    and "k \<notin> dom (map_of st)"
  shows "k \<notin> dom (map_of (fst (MakeSimpleReusePlan srt lcs st [] [])))"
  using plan_dom [OF assms(1,2), of st] assms(3) by blast

lemma to_int_mult: "to_int (to_int a * b) = to_int (a * b)"
  by (simp add: to_int_def)

lemma foldl_to_int:
  "foldl (\<lambda>acc v. to_int (acc * v)) (to_int a) xs = to_int (a * prod_list xs)"
proof (induction xs arbitrary: a)
  case Nil
  show ?case by simp
next
  case (Cons x xs)
  have "foldl (\<lambda>acc v. to_int (acc * v)) (to_int a) (x # xs)
      = foldl (\<lambda>acc v. to_int (acc * v)) (to_int (a * x)) xs"
    by (simp add: to_int_mult)
  also have "\<dots> = to_int (a * x * prod_list xs)"
    by (rule Cons.IH)
  finally show ?case
    by (simp add: mult.assoc)
qed

lemma to_int_small: "- (2 ^ 31) \<le> x \<Longrightarrow> x < 2 ^ 31 \<Longrightarrow> to_int x = x"
  by (simp add: to_int_def signed_of_int signed_take_bit_int_eq_self)

text \<open>
  The recorded size is the product of the dimensions narrowed to 32 bits, times the
  byte width; it is the product itself when that fits an \<^verbatim>\<open>int\<close>.
\<close>

lemma tensor_size_eq:
  "tensor_size S d =
     word_of_int (to_int (prod_list (map (\<lambda>v. if v < 0 then 1 else v) (GetShape d))))
       * S (GetDataType d)"
proof -
  have "to_int 1 = 1"
    by (simp add: to_int_def)
  with foldl_to_int [of 1] show ?thesis
    unfolding tensor_size_def fake_batch_size_def Let_def by simp
qed

lemma tensor_size_exact:
  assumes "prod_list (map (\<lambda>v. if v < 0 then 1 else v) (GetShape d)) \<le> INT_MAX"
  shows "tensor_size S d =
     word_of_int (prod_list (map (\<lambda>v. if v < 0 then 1 else v) (GetShape d))) * S (GetDataType d)"
proof -
  have "0 \<le> prod_list (map (\<lambda>v. if v < 0 then 1 else v) xs)" for xs :: "int list"
    by (induction xs) simp_all
  from this [of "GetShape d"] assms show ?thesis
    by (simp add: tensor_size_eq to_int_small INT_MAX_def)
qed

subsection \<open>The concrete graphs\<close>

lemmas example_nodes = no_node_def op_node_def var_node_def IsOp_def IsVar_def

lemma small_heap_simps:
  "small_heap 0 = op_node ''feed'' [] [1]"
  "small_heap 1 = var_node ''x'' False [- 1, 4] [0] [2]"
  "small_heap (Suc 0) = var_node ''x'' False [- 1, 4] [0] [2]"
  "small_heap 2 = op_node ''relu'' [1] [3]"
  "small_heap 3 = var_node ''y'' False [- 1, 8] [2] [4]"
  "small_heap 4 = op_node ''scale'' [3, 10] [5]"
  "small_heap 5 = var_node ''z'' False [- 1, 6] [4] [6]"
  "small_heap 6 = op_node ''sigmoid'' [5] [7]"
  "small_heap 7 = var_node ''u'' False [- 1, 2] [6] [8]"
  "small_heap 8 = op_node ''tanh'' [7] [9]"
  "small_heap 9 = var_node ''t'' False [- 1, 2] [8] [11]"
  "small_heap 10 = var_node ''w'' True [4] [] [4]"
  "small_heap 11 = op_node ''fetch'' [9] [12]"
  "small_heap 12 = var_node ''out'' False [- 1, 2] [11] []"
  by (simp_all add: small_heap_def)

lemma small_CollectLifeCycle:
  "CollectLifeCycle small_heap small_order [] = Inr small_lifecycles"
  by (simp add: CollectLifeCycle_def small_order_def small_heap_simps example_nodes
      small_lifecycles_def emplace_def record_use_def is_break_def INT_MAX_def)

lemma small_plan:
  "MakeSimpleReusePlan insertion_sort small_lifecycles small_space_table [] []
     = ([(''y'', ''y''), (''u'', ''y''), (''z'', ''z''), (''x'', ''x'')],
        [(''y'', 32), (''z'', 24), (''x'', 16)])"
  by (simp add: MakeSimpleReusePlan_def small_lifecycles_def small_space_table_def
      overlap_def link_into_def link_from_def sort_func_def INT_MAX_def)

lemma small_CollectVarMemorySize:
  "CollectVarMemorySize (\<lambda>_. 4) small_graph [] = Inr small_space_table"
  by (simp add: CollectVarMemorySize_def small_graph_def small_heap_simps example_nodes
      dense_var_def valid_var_def invalid_op_def tensor_size_def to_int_def fake_batch_size_def
      small_space_table_def)

lemma small_argument_simps:
  "enable_memory_optim small_argument" "main_graph_ptr small_argument = small_graph"
  "root_predictor_id small_argument = 7" "deref small_graph = small_heap"
  by (simp_all add: small_argument_def small_graph_def)

lemma small_RunImpl:
  "RunImpl (\<lambda>g k. small_order) (\<lambda>_. 4) insertion_sort small_argument Map.empty
     = Inr [(7, ''memory_optimize_pass'') \<mapsto>
             Node2Cluster [(''y'', ''y''), (''u'', ''y''), (''z'', ''z''), (''x'', ''x'')]]"
  by (simp add: RunImpl_def Let_def small_argument_simps small_CollectLifeCycle
      small_CollectVarMemorySize small_plan Set_result_def)

section \<open>The claims\<close>

text \<open>
  C1. In the plan that \<^verbatim>\<open>MakeSimpleReusePlan\<close> produces from empty output maps, two
  distinct candidates (names with a lifecycle and a size) whose lifecycle intervals
  overlap under the closed-interval rule are both mapped, and to different
  representatives. This holds for every iteration order of \<^verbatim>\<open>lifecycles\<close> and every
  \<^verbatim>\<open>std::sort\<close> that meets its contract.
\<close>

theorem MakeSimpleReusePlan_separates_overlapping:
  assumes "std_sort_contract srt" and "distinct (map fst lifecycles)"
    and "map_of lifecycles u = Some a" and "map_of lifecycles v = Some b"
    and "map_of space_table u = Some su" and "map_of space_table v = Some sv"
    and "u \<noteq> v" and "overlap a b"
  shows "\<exists>ru rv. map_of (fst (MakeSimpleReusePlan srt lifecycles space_table [] [])) u = Some ru
           \<and> map_of (fst (MakeSimpleReusePlan srt lifecycles space_table [] [])) v = Some rv
           \<and> ru \<noteq> rv"
proof -
  let ?n2c = "fst (MakeSimpleReusePlan srt lifecycles space_table [] [])"
  from plan_rep [OF assms(1,2,3,5)] obtain ru where "map_of ?n2c u = Some ru"
    by blast
  moreover from plan_rep [OF assms(1,2,4,6)] obtain rv where "map_of ?n2c v = Some rv"
    by blast
  moreover have "map_of ?n2c u \<noteq> map_of ?n2c v"
    by (rule plan_indep [OF assms(1,2,3,5,4,6,7,8)])
  ultimately show ?thesis
    by auto
qed

theorem MakeSimpleReusePlan_separates_overlapping_witness:
  "std_sort_contract insertion_sort \<and> distinct (map fst scenario_lifecycles)
   \<and> map_of scenario_lifecycles ''A'' = Some (0, 2)
   \<and> map_of scenario_lifecycles ''C'' = Some (1, 4)
   \<and> map_of scenario_space_table ''A'' = Some 100
   \<and> map_of scenario_space_table ''C'' = Some 80
   \<and> ''A'' \<noteq> ''C'' \<and> overlap (0, 2) (1, 4)
   \<and> (\<exists>ru rv.
        map_of (fst (MakeSimpleReusePlan insertion_sort scenario_lifecycles
                       scenario_space_table [] [])) ''A'' = Some ru
        \<and> map_of (fst (MakeSimpleReusePlan insertion_sort scenario_lifecycles
                       scenario_space_table [] [])) ''C'' = Some rv
        \<and> ru \<noteq> rv)"
proof -
  have h: "distinct (map fst scenario_lifecycles)"
    "map_of scenario_lifecycles ''A'' = Some (0, 2)"
    "map_of scenario_lifecycles ''C'' = Some (1, 4)"
    "map_of scenario_space_table ''A'' = Some 100"
    "map_of scenario_space_table ''C'' = Some 80"
    "''A'' \<noteq> ''C''" "overlap (0, 2) (1, 4)"
    by (simp_all add: scenario_lifecycles_def scenario_space_table_def overlap_def)
  from MakeSimpleReusePlan_separates_overlapping [OF insertion_sort_contract h]
  show ?thesis
    using insertion_sort_contract h by blast
qed




text \<open>
  C3, as amended: the part about persistent variables. A persistable variable never is
  a key of the size table or of \<^verbatim>\<open>node2cluster\<close>: if every dense-tensor variable node
  that carries the name \<open>n\<close> is persistable, \<open>n\<close> is in neither map, whatever the
  lifecycles are. Nothing is stated of the outputs of \<^verbatim>\<open>feed\<close>.
\<close>

theorem persistable_variable_absent:
  assumes "CollectVarMemorySize SizeOfType graph [] = Inr space_table"
    and "\<forall>p \<in> set (Nodes graph). \<forall>d. dense_var (deref graph p) = Some d \<and> VarName d = n
           \<longrightarrow> Persistable d"
    and "std_sort_contract srt" and "distinct (map fst lifecycles)"
  shows "n \<notin> dom (map_of space_table)
    \<and> n \<notin> dom (map_of (fst (MakeSimpleReusePlan srt lifecycles space_table [] [])))"
proof -
  have "n \<notin> dom (map_of space_table)"
    using CollectVarMemorySize_dom(1) [OF assms(1), of n] assms(2) by blast
  with plan_dom_subset [OF assms(3,4)] show ?thesis
    by blast
qed

theorem persistable_variable_absent_witness:
  "CollectVarMemorySize (\<lambda>_. 4) small_graph [] = Inr small_space_table
   \<and> list_all (\<lambda>p. case dense_var (deref small_graph p) of
                      None \<Rightarrow> True | Some d \<Rightarrow> VarName d \<noteq> ''w'' \<or> Persistable d)
        (Nodes small_graph)
   \<and> std_sort_contract insertion_sort \<and> distinct (map fst small_lifecycles)
   \<and> ''w'' \<notin> dom (map_of small_space_table)
   \<and> ''w'' \<notin> dom (map_of (fst (MakeSimpleReusePlan insertion_sort small_lifecycles
                                    small_space_table [] [])))"
proof -
  have a: "list_all (\<lambda>p. case dense_var (deref small_graph p) of
                      None \<Rightarrow> True | Some d \<Rightarrow> VarName d \<noteq> ''w'' \<or> Persistable d)
        (Nodes small_graph)"
    by (simp add: small_graph_def small_heap_simps example_nodes dense_var_def)
  then have b: "\<forall>p \<in> set (Nodes small_graph). \<forall>d.
      dense_var (deref small_graph p) = Some d \<and> VarName d = ''w'' \<longrightarrow> Persistable d"
    by (auto simp: list_all_iff split: option.splits)
  have d: "distinct (map fst small_lifecycles)"
    by (simp add: small_lifecycles_def)
  from persistable_variable_absent [OF small_CollectVarMemorySize b insertion_sort_contract d]
  show ?thesis
    using small_CollectVarMemorySize a insertion_sort_contract d by simp
qed

text \<open>
  C3 as stated fails in its part about the outputs of \<^verbatim>\<open>feed\<close>. On the small graph
  the variable \<open>x\<close> is the output of the \<^verbatim>\<open>feed\<close> operator; it is in the collected
  lifecycles and in the size table, and it is a key of \<^verbatim>\<open>node2cluster\<close>.
\<close>

theorem feed_output_in_plan_counterexample:
  "IsOp (small_heap 0) \<and> Name (small_heap 0) = ''feed'' \<and> outputs (small_heap 0) = [1]
   \<and> Name (small_heap 1) = ''x''
   \<and> CollectLifeCycle small_heap small_order [] = Inr small_lifecycles
   \<and> CollectVarMemorySize (\<lambda>_. 4) small_graph [] = Inr small_space_table
   \<and> map_of (fst (MakeSimpleReusePlan insertion_sort small_lifecycles small_space_table [] []))
        ''x'' = Some ''x''"
  by (simp add: small_CollectLifeCycle small_CollectVarMemorySize small_plan small_heap_simps
      example_nodes)

text \<open>
  C4, as amended. The comparator of the sort looks at sizes only. When the sizes of the
  candidates are pairwise distinct, the plan is the same for every iteration order of
  \<^verbatim>\<open>lifecycles\<close> and every \<^verbatim>\<open>std::sort\<close> that meets its contract.
\<close>

theorem MakeSimpleReusePlan_distinct_sizes_deterministic:
  assumes "std_sort_contract srt1" and "std_sort_contract srt2"
    and "distinct (map fst lifecycles1)" and "distinct (map fst lifecycles2)"
    and "map_of lifecycles1 = map_of lifecycles2"
    and "inj_on (map_of space_table) (dom (map_of lifecycles1) \<inter> dom (map_of space_table))"
  shows "MakeSimpleReusePlan srt1 lifecycles1 space_table [] []
     = MakeSimpleReusePlan srt2 lifecycles2 space_table [] []"
  using plan_nodes_unique [OF assms(1-5) refl assms(6)] by (simp add: plan_unfold)

theorem MakeSimpleReusePlan_distinct_sizes_deterministic_witness:
  "std_sort_contract insertion_sort \<and> std_sort_contract reverse_sort
   \<and> distinct (map fst scenario_lifecycles) \<and> distinct (map fst scenario_lifecycles')
   \<and> map_of scenario_lifecycles = map_of scenario_lifecycles'
   \<and> inj_on (map_of scenario_space_table)
        (dom (map_of scenario_lifecycles) \<inter> dom (map_of scenario_space_table))
   \<and> MakeSimpleReusePlan insertion_sort scenario_lifecycles scenario_space_table [] []
       = MakeSimpleReusePlan reverse_sort scenario_lifecycles' scenario_space_table [] []"
proof -
  have d: "distinct (map fst scenario_lifecycles)" "distinct (map fst scenario_lifecycles')"
    by (simp_all add: scenario_lifecycles_def scenario_lifecycles'_def)
  from MakeSimpleReusePlan_distinct_sizes_deterministic
    [OF insertion_sort_contract reverse_sort_contract d scenario_same_map
        scenario_sizes_distinct]
  show ?thesis
    using insertion_sort_contract reverse_sort_contract d scenario_same_map
      scenario_sizes_distinct
    by blast
qed

text \<open>
  C4 as stated fails: nothing breaks ties by name. Three candidates of equal size, the
  same \<^verbatim>\<open>lifecycles\<close> map in two iteration orders, and one sort: \<open>A\<close> is mapped to \<open>A\<close>
  in one run and to \<open>B\<close> in the other.
\<close>

theorem equal_sizes_order_counterexample:
  "set [(''A'', (0, 1)), (''B'', (2, 3)), (''C'', (1 :: int, 2 :: int))]
     = set [(''B'', (2, 3)), (''A'', (0, 1)), (''C'', (1, 2))]
   \<and> MakeSimpleReusePlan insertion_sort
        [(''A'', (0, 1)), (''B'', (2, 3)), (''C'', (1, 2))]
        [(''A'', 8), (''B'', 8), (''C'', 8)] [] []
       = ([(''A'', ''A''), (''B'', ''A''), (''C'', ''C'')], [(''A'', 8), (''C'', 8)])
   \<and> MakeSimpleReusePlan insertion_sort
        [(''B'', (2, 3)), (''A'', (0, 1)), (''C'', (1, 2))]
        [(''A'', 8), (''B'', 8), (''C'', 8)] [] []
       = ([(''B'', ''B''), (''A'', ''B''), (''C'', ''C'')], [(''B'', 8), (''C'', 8)])"
  by (simp add: MakeSimpleReusePlan_def overlap_def link_into_def link_from_def sort_func_def
      insert_commute)

text \<open>
  C5, as amended. With the flag unset \<^verbatim>\<open>RunImpl\<close> returns the registry unchanged. With
  the flag set, a run that returns has written \<^verbatim>\<open>node2cluster\<close>, and only it, under the
  key of the predictor id and \<^verbatim>\<open>"memory_optimize_pass"\<close>; every other key is unchanged.
\<close>

theorem RunImpl_registry:
  "(\<not> enable_memory_optim argument \<longrightarrow> RunImpl tvs SizeOfType srt argument reg = Inr reg)
   \<and> (\<forall>reg'. enable_memory_optim argument
          \<and> RunImpl tvs SizeOfType srt argument reg = Inr reg' \<longrightarrow>
        (\<exists>lifecycles space_table.
           CollectLifeCycle (deref (main_graph_ptr argument)) (tvs (main_graph_ptr argument) 0) []
             = Inr lifecycles
           \<and> CollectVarMemorySize SizeOfType (main_graph_ptr argument) [] = Inr space_table
           \<and> reg' (root_predictor_id argument, ''memory_optimize_pass'')
               = Some (Node2Cluster
                   (fst (MakeSimpleReusePlan srt lifecycles space_table [] [])))
           \<and> (\<forall>k. k \<noteq> (root_predictor_id argument, ''memory_optimize_pass'')
                 \<longrightarrow> reg' k = reg k)))"
  by (auto simp: RunImpl_def Set_result_def Let_def split: sum.splits prod.splits)

theorem RunImpl_registry_witness:
  "\<not> enable_memory_optim (small_argument\<lparr>enable_memory_optim := False\<rparr>)
   \<and> RunImpl (\<lambda>g k. small_order) (\<lambda>_. 4) insertion_sort
        (small_argument\<lparr>enable_memory_optim := False\<rparr>) Map.empty = Inr Map.empty
   \<and> enable_memory_optim small_argument
   \<and> (\<exists>reg'. RunImpl (\<lambda>g k. small_order) (\<lambda>_. 4) insertion_sort small_argument Map.empty
                = Inr reg'
         \<and> reg' (7, ''memory_optimize_pass'')
              = Some (Node2Cluster
                  [(''y'', ''y''), (''u'', ''y''), (''z'', ''z''), (''x'', ''x'')])
         \<and> reg' (8, ''memory_optimize_pass'') = None)"
proof -
  let ?run = "RunImpl (\<lambda>g k. small_order) (\<lambda>_. 4) insertion_sort"
  have off: "\<not> enable_memory_optim (small_argument\<lparr>enable_memory_optim := False\<rparr>)"
    and on: "enable_memory_optim small_argument"
    by (simp_all add: small_argument_def)
  note t = RunImpl_registry [of _ "\<lambda>g k. small_order" "\<lambda>_. 4" insertion_sort Map.empty]
  from t [of "small_argument\<lparr>enable_memory_optim := False\<rparr>"] off
  have a: "?run (small_argument\<lparr>enable_memory_optim := False\<rparr>) Map.empty = Inr Map.empty"
    by blast
  obtain reg' where r: "?run small_argument Map.empty = Inr reg'"
    using small_RunImpl by blast
  from t [of small_argument] on r obtain lc st where
    "CollectLifeCycle (deref (main_graph_ptr small_argument)) small_order [] = Inr lc"
    "CollectVarMemorySize (\<lambda>_. 4) (main_graph_ptr small_argument) [] = Inr st"
    "reg' (root_predictor_id small_argument, ''memory_optimize_pass'')
       = Some (Node2Cluster (fst (MakeSimpleReusePlan insertion_sort lc st [] [])))"
    "\<forall>k. k \<noteq> (root_predictor_id small_argument, ''memory_optimize_pass'')
       \<longrightarrow> reg' k = Map.empty k"
    by blast
  then have "reg' (7, ''memory_optimize_pass'')
      = Some (Node2Cluster [(''y'', ''y''), (''u'', ''y''), (''z'', ''z''), (''x'', ''x'')])"
    and "reg' (8, ''memory_optimize_pass'') = None"
    by (simp_all add: small_argument_simps small_CollectLifeCycle
        small_CollectVarMemorySize small_plan)
  with off on a r show ?thesis
    by blast
qed

text \<open>
  C5 as stated fails: \<^verbatim>\<open>cluster_size\<close> is not published. After a run on the small
  graph from the empty registry, the registry holds the one \<^verbatim>\<open>node2cluster\<close> value.
\<close>

theorem cluster_size_not_published_counterexample:
  "RunImpl (\<lambda>g k. small_order) (\<lambda>_. 4) insertion_sort small_argument Map.empty
     = Inr [(7, ''memory_optimize_pass'') \<mapsto>
             Node2Cluster [(''y'', ''y''), (''u'', ''y''), (''z'', ''z''), (''x'', ''x'')]]
   \<and> snd (MakeSimpleReusePlan insertion_sort small_lifecycles small_space_table [] [])
       = [(''y'', 32), (''z'', 24), (''x'', 16)]
   \<and> ClusterSize [(''y'', 32), (''z'', 24), (''x'', 16)]
       \<notin> ran [(7 :: int, ''memory_optimize_pass'') \<mapsto>
               Node2Cluster [(''y'', ''y''), (''u'', ''y''), (''z'', ''z''), (''x'', ''x'')]]"
  by (simp add: small_RunImpl small_plan)

text \<open>
  C6, at an input where the code departs from it: a dense, non-persistable tensor of
  shape \<open>[65536, 65536]\<close> with four bytes per element. The product of the dimensions
  times the width is \<open>2^34\<close>, which a \<^verbatim>\<open>size_t\<close> holds; the recorded size is \<open>0\<close>,
  because \<^verbatim>\<open>std::accumulate\<close> runs on an \<^verbatim>\<open>int\<close>.
\<close>

theorem big_tensor_size_truncated:
  "CollectVarMemorySize (\<lambda>_. 4) big_tensor [] = Inr [(''big'', 0)]
   \<and> (65536 * 65536 * 4 :: int) = 17179869184 \<and> (17179869184 :: int) < 2 ^ 64"
  by (simp add: CollectVarMemorySize_def big_tensor_def example_nodes dense_var_def
      valid_var_def tensor_size_def to_int_def fake_batch_size_def)

text \<open>
  C7. A variable node with a descriptor that is touched, as input or output, by an
  operator whose type is in the literal blacklist has no entry in the size table and
  none in \<^verbatim>\<open>node2cluster\<close>, whatever the lifecycles are. The blacklist is computed over
  dense-tensor nodes; for a node of another kind the statement needs that no
  dense-tensor node carries the same name.
\<close>

theorem blacklisted_variable_absent:
  assumes "CollectVarMemorySize SizeOfType graph [] = Inr space_table"
    and "p \<in> set (Nodes graph)" and "IsVar (deref graph p)" and "Var (deref graph p) = Some d"
    and "op \<in> set (inputs (deref graph p) @ outputs (deref graph p))"
    and "OpType (deref graph op) \<in>
          {''while'', ''conditional_block'', ''tensorrt_engine'', ''conditional_block_infer'',
           ''merge_lod_tensor_infer'', ''merge_lod_tensor'', ''equal'', ''sequence_pool'',
           ''recurrent'', ''lod_reset'', ''fetch'', ''share_data''}"
    and "GetType d = VarType_Type_LOD_TENSOR \<or>
         (\<forall>q \<in> set (Nodes graph). \<forall>d'. dense_var (deref graph q) = Some d'
             \<longrightarrow> VarName d' \<noteq> VarName d)"
    and "std_sort_contract srt" and "distinct (map fst lifecycles)"
  shows "VarName d \<notin> dom (map_of space_table)
    \<and> VarName d \<notin> dom (map_of (fst (MakeSimpleReusePlan srt lifecycles space_table [] [])))"
proof -
  have inv: "OpType (deref graph op) \<in> set invalid_op"
    using assms(6) by (simp add: invalid_op_def)
  have "VarName d \<notin> dom (map_of space_table)"
  proof
    assume k: "VarName d \<in> dom (map_of space_table)"
    from assms(7) show False
    proof
      assume "GetType d = VarType_Type_LOD_TENSOR"
      then have "dense_var (deref graph p) = Some d"
        using assms(3,4) by (simp add: dense_var_def)
      with CollectVarMemorySize_dom(2) [OF assms(1) k] assms(2,5) inv show False
        by blast
    next
      assume "\<forall>q \<in> set (Nodes graph). \<forall>d'. dense_var (deref graph q) = Some d'
             \<longrightarrow> VarName d' \<noteq> VarName d"
      with CollectVarMemorySize_dom(1) [OF assms(1) k] show False
        by blast
    qed
  qed
  with plan_dom_subset [OF assms(8,9)] show ?thesis
    by blast
qed

theorem blacklisted_variable_absent_witness:
  "CollectVarMemorySize (\<lambda>_. 4) small_graph [] = Inr small_space_table
   \<and> 9 \<in> set (Nodes small_graph) \<and> IsVar (deref small_graph 9)
   \<and> Var (deref small_graph 9)
       = Some \<lparr>VarName = ''t'', Persistable = False, GetShape = [- 1, 2],
               GetType = VarType_Type_LOD_TENSOR, GetDataType = 5\<rparr>
   \<and> 11 \<in> set (inputs (deref small_graph 9) @ outputs (deref small_graph 9))
   \<and> OpType (deref small_graph 11) = ''fetch''
   \<and> std_sort_contract insertion_sort \<and> distinct (map fst small_lifecycles)
   \<and> map_of small_lifecycles ''t'' = Some (4, 5)
   \<and> ''t'' \<notin> dom (map_of small_space_table)
   \<and> ''t'' \<notin> dom (map_of (fst (MakeSimpleReusePlan insertion_sort small_lifecycles
                                    small_space_table [] [])))"
proof -
  let ?d = "\<lparr>VarName = ''t'', Persistable = False, GetShape = [- 1, 2],
               GetType = VarType_Type_LOD_TENSOR, GetDataType = 5\<rparr>"
  have h: "9 \<in> set (Nodes small_graph)" "IsVar (deref small_graph 9)"
    "Var (deref small_graph 9) = Some ?d"
    "11 \<in> set (inputs (deref small_graph 9) @ outputs (deref small_graph 9))"
    "OpType (deref small_graph 11) = ''fetch''"
    "distinct (map fst small_lifecycles)" "map_of small_lifecycles ''t'' = Some (4, 5)"
    by (simp_all add: small_graph_def small_heap_simps example_nodes small_lifecycles_def)
  have "OpType (deref small_graph 11) \<in>
          {''while'', ''conditional_block'', ''tensorrt_engine'', ''conditional_block_infer'',
           ''merge_lod_tensor_infer'', ''merge_lod_tensor'', ''equal'', ''sequence_pool'',
           ''recurrent'', ''lod_reset'', ''fetch'', ''share_data''}"
    by (simp add: h(5))
  moreover have "GetType ?d = VarType_Type_LOD_TENSOR \<or>
         (\<forall>q \<in> set (Nodes small_graph). \<forall>d'. dense_var (deref small_graph q) = Some d'
             \<longrightarrow> VarName d' \<noteq> VarName ?d)"
    by simp
  ultimately have "VarName ?d \<notin> dom (map_of small_space_table)
    \<and> VarName ?d \<notin> dom (map_of (fst (MakeSimpleReusePlan insertion_sort small_lifecycles
                                         small_space_table [] [])))"
    by (rule blacklisted_variable_absent
        [OF small_CollectVarMemorySize h(1-4) _ _ insertion_sort_contract h(6)])
  then show ?thesis
    using small_CollectVarMemorySize h insertion_sort_contract by simp
qed

text \<open>
  C8, as amended. \<^verbatim>\<open>CollectLifeCycle\<close> aborts, and then with the shape error, iff some
  operator of the traversal other than \<^verbatim>\<open>feed\<close> references a persistable variable that
  has a negative dimension and has no operator named \<^verbatim>\<open>fetch\<close> in \<^verbatim>\<open>node->inputs\<close>,
  that is, among its producers.
\<close>

theorem CollectLifeCycle_aborts_iff:
  "((\<exists>e. CollectLifeCycle h order lifecycles = Inl e) \<longleftrightarrow>
    (\<exists>op \<in> set order. IsOp (h op) \<and> Name (h op) \<noteq> ''feed'' \<and>
       (\<exists>p \<in> set (inputs (h op) @ outputs (h op)). \<exists>d.
          Var (h p) = Some d \<and> Persistable d \<and> (\<exists>i \<in> set (GetShape d). i < 0)
          \<and> \<not> (\<exists>q \<in> set (inputs (h p)). Name (h q) = ''fetch''))))
   \<and> (\<forall>e. CollectLifeCycle h order lifecycles = Inl e \<longrightarrow>
          e = InvalidArgument ''The shape of node shouldn't be negative. '')"
proof -
  have "bad_shape h p \<longleftrightarrow>
      (\<exists>d. Var (h p) = Some d \<and> Persistable d \<and> (\<exists>i \<in> set (GetShape d). i < 0)
         \<and> \<not> (\<exists>q \<in> set (inputs (h p)). Name (h q) = ''fetch''))" for p
    by (auto simp: bad_shape_def is_break_def list_ex_iff split: option.splits)
  then show ?thesis
    using collect_loop_error [of h order 0 lifecycles]
      collect_loop_error_value [of h order 0 lifecycles]
    by (simp add: CollectLifeCycle_def shape_error_def)
qed

theorem CollectLifeCycle_aborts_iff_witness:
  "\<exists>e. CollectLifeCycle fetched_param [0] [] = Inl e"
proof -
  have "\<exists>op \<in> set [0]. IsOp (fetched_param op) \<and> Name (fetched_param op) \<noteq> ''feed'' \<and>
       (\<exists>p \<in> set (inputs (fetched_param op) @ outputs (fetched_param op)). \<exists>d.
          Var (fetched_param p) = Some d \<and> Persistable d \<and> (\<exists>i \<in> set (GetShape d). i < 0)
          \<and> \<not> (\<exists>q \<in> set (inputs (fetched_param p)). Name (fetched_param q) = ''fetch''))"
    by (simp add: fetched_param_def example_nodes)
  with CollectLifeCycle_aborts_iff [of fetched_param "[0]" "[]"] show ?thesis
    by blast
qed

text \<open>
  C8 as stated fails: the exception looks at the producers of the variable, not at
  its consumers. A persistable variable with a dynamic dimension whose only consumer
  is a \<^verbatim>\<open>fetch\<close> operator, and which nothing produces, makes the call abort.
\<close>

theorem fetch_consumer_counterexample:
  "CollectLifeCycle fetched_param [0] []
     = Inl (InvalidArgument ''The shape of node shouldn't be negative. '')
   \<and> IsOp (fetched_param 0) \<and> Name (fetched_param 0) = ''fetch''
   \<and> inputs (fetched_param 0) = [1]
   \<and> Var (fetched_param 1) = Some \<lparr>VarName = ''p'', Persistable = True, GetShape = [- 1],
          GetType = VarType_Type_LOD_TENSOR, GetDataType = 5\<rparr>
   \<and> inputs (fetched_param 1) = [] \<and> outputs (fetched_param 1) = [0]"
  by (simp add: CollectLifeCycle_def fetched_param_def example_nodes is_break_def)

text \<open>
  C9. On the worked scenario (lifecycles \<open>A:[0,2]\<close>, \<open>B:[3,5]\<close>, \<open>C:[1,4]\<close>, sizes
  \<open>A:100\<close>, \<open>B:50\<close>, \<open>C:80\<close>), whatever the iteration order of the two maps and
  whatever the sort, \<^verbatim>\<open>node2cluster\<close> is \<open>A \<mapsto> A, B \<mapsto> A, C \<mapsto> C\<close> and \<^verbatim>\<open>cluster_size\<close>
  is \<open>A \<mapsto> 100, C \<mapsto> 80\<close>.
\<close>

theorem MakeSimpleReusePlan_scenario:
  assumes "std_sort_contract srt" and "distinct (map fst lifecycles)"
    and "map_of lifecycles = map_of scenario_lifecycles"
    and "map_of space_table = map_of scenario_space_table"
  shows "MakeSimpleReusePlan srt lifecycles space_table [] []
     = ([(''A'', ''A''), (''B'', ''A''), (''C'', ''C'')], [(''A'', 100), (''C'', 80)])"
proof -
  have d: "distinct (map fst scenario_lifecycles)"
    by (simp add: scenario_lifecycles_def)
  have "inj_on (map_of space_table) (dom (map_of lifecycles) \<inter> dom (map_of space_table))"
    using scenario_sizes_distinct by (simp add: assms(3,4))
  from plan_nodes_unique [OF assms(1) insertion_sort_contract assms(2) d assms(3,4) this]
  show ?thesis
    by (simp add: plan_unfold scenario_plan [unfolded plan_unfold])
qed

theorem MakeSimpleReusePlan_scenario_witness:
  "std_sort_contract reverse_sort \<and> distinct (map fst scenario_lifecycles')
   \<and> map_of scenario_lifecycles' = map_of scenario_lifecycles
   \<and> map_of scenario_space_table = map_of scenario_space_table
   \<and> MakeSimpleReusePlan reverse_sort scenario_lifecycles' scenario_space_table [] []
       = ([(''A'', ''A''), (''B'', ''A''), (''C'', ''C'')], [(''A'', 100), (''C'', 80)])"
proof -
  have d: "distinct (map fst scenario_lifecycles')"
    by (simp add: scenario_lifecycles'_def)
  from MakeSimpleReusePlan_scenario [OF reverse_sort_contract d scenario_same_map [symmetric] refl]
  show ?thesis
    using reverse_sort_contract d scenario_same_map by simp
qed

text \<open>
  C10. A candidate whose interval in the collected lifecycles is \<open>(0, INT_MAX)\<close>, the
  one the feed branch records, overlaps the interval of every entry, is mapped to
  itself, and nothing else is mapped to it. The traversal is assumed to have at most
  \<open>INT_MAX\<close> nodes, so that the step counter does not overflow; \<^verbatim>\<open>lifecycles\<close> is any
  iteration order of the collected map.
\<close>

theorem feed_interval_never_shared:
  assumes "CollectLifeCycle h order [] = Inr lc" and "int (length order) \<le> INT_MAX"
    and "std_sort_contract srt"
    and "distinct (map fst lifecycles)" and "map_of lifecycles = map_of lc"
    and "map_of lc u = Some (0, INT_MAX)" and "map_of space_table u = Some su"
  shows "(\<forall>v b. map_of lifecycles v = Some b \<longrightarrow> overlap (0, INT_MAX) b)
    \<and> map_of (fst (MakeSimpleReusePlan srt lifecycles space_table [] [])) u = Some u
    \<and> (\<forall>v. v \<noteq> u \<longrightarrow>
          map_of (fst (MakeSimpleReusePlan srt lifecycles space_table [] [])) v \<noteq> Some u)"
proof -
  have u: "map_of lifecycles u = Some (0, INT_MAX)"
    using assms(5,6) by simp
  have ov: "overlap (0, INT_MAX) b" if "map_of lifecycles v = Some b" for v b
  proof -
    have "(v, b) \<in> set lc"
      using that assms(5) by (auto dest: map_of_SomeD)
    from CollectLifeCycle_intervals [OF assms(1,2) this] show ?thesis
      by (simp add: overlap_def)
  qed
  then show ?thesis
    using plan_alone [OF assms(3,4) u assms(7)] by blast
qed

theorem feed_interval_never_shared_witness:
  "CollectLifeCycle small_heap small_order [] = Inr small_lifecycles
   \<and> int (length small_order) \<le> INT_MAX
   \<and> std_sort_contract insertion_sort
   \<and> distinct (map fst small_lifecycles)
   \<and> map_of small_lifecycles ''x'' = Some (0, INT_MAX)
   \<and> map_of small_space_table ''x'' = Some 16
   \<and> map_of small_lifecycles ''y'' = Some (1, 2) \<and> overlap (0, INT_MAX) (1, 2)
   \<and> map_of (fst (MakeSimpleReusePlan insertion_sort small_lifecycles small_space_table [] []))
        ''x'' = Some ''x''
   \<and> map_of (fst (MakeSimpleReusePlan insertion_sort small_lifecycles small_space_table [] []))
        ''y'' \<noteq> Some ''x''
   \<and> map_of (fst (MakeSimpleReusePlan insertion_sort small_lifecycles small_space_table [] []))
        ''u'' \<noteq> Some ''x''"
proof -
  have h: "int (length small_order) \<le> INT_MAX" "distinct (map fst small_lifecycles)"
    "map_of small_lifecycles ''x'' = Some (0, INT_MAX)"
    "map_of small_space_table ''x'' = Some 16"
    "map_of small_lifecycles ''y'' = Some (1, 2)"
    by (simp_all add: small_order_def INT_MAX_def small_lifecycles_def small_space_table_def)
  from feed_interval_never_shared
    [OF small_CollectLifeCycle h(1) insertion_sort_contract h(2) refl h(3,4)]
  show ?thesis
    using small_CollectLifeCycle h insertion_sort_contract by simp
qed

end
